theory Spec2Isabelle
  imports Main "HOL-Library.Word" "HOL-Library.Char_ord" "HOL-Library.List_Lexorder"
    "HOL-Library.Product_Lexorder" "HOL-Library.Multiset"
begin

unbundle bit_operations_syntax

section \<open>JavaScript strings and numbers\<close>

text \<open>
  A JavaScript string is modelled as \<^typ>\<open>string\<close>: a list of code units, here the 8-bit
  characters of HOL (the Latin-1 range of the UTF-16 code units). The relational operators
  on strings and the default \<open>Array.prototype.sort\<close> compare code unit by code unit, which is
  the lexicographic order of \<^typ>\<open>char list\<close>.
\<close>

fun join :: "string \<Rightarrow> string list \<Rightarrow> string" where
  "join sep [] = []"
| "join sep [x] = x"
| "join sep (x # y # ys) = x @ sep @ join sep (y # ys)"

definition orEmpty :: "string option \<Rightarrow> string" where
  "orEmpty v = (case v of None \<Rightarrow> [] | Some s \<Rightarrow> s)"

definition isDigit :: "char \<Rightarrow> bool" where
  "isDigit c = (c \<in> set ''0123456789'')"

definition isSpace :: "char \<Rightarrow> bool" where
  "isSpace c = (of_char c \<in> {9, 10, 11, 12, 13, 32, 160 :: nat})"

definition digitVal :: "char \<Rightarrow> int" where
  "digitVal c = of_char c - 48"

definition parseDigits :: "string \<Rightarrow> int" where
  "parseDigits s = foldl (\<lambda>n c. 10 * n + digitVal c) 0 s"

definition digitChar :: "int \<Rightarrow> char" where
  "digitChar n = ''0123456789abcdef'' ! nat n"

text \<open>\<open>Number.prototype.toString(radix)\<close> on an integer.\<close>

function digitsOf :: "int \<Rightarrow> int \<Rightarrow> string" where
  "digitsOf radix n =
     (if n < radix \<or> radix < 2 then [digitChar n]
      else digitsOf radix (n div radix) @ [digitChar (n mod radix)])"
  by pat_completeness auto
termination
  by (relation "measure (\<lambda>(radix, n). nat n)") (auto intro!: int_div_less_self)

definition intToString :: "int \<Rightarrow> string" where
  "intToString i = (if i < 0 then CHR ''-'' # digitsOf 10 (- i) else digitsOf 10 i)"

definition padStart :: "nat \<Rightarrow> char \<Rightarrow> string \<Rightarrow> string" where
  "padStart n c s = replicate (n - length s) c @ s"

definition toLowerChar :: "char \<Rightarrow> char" where
  "toLowerChar c =
     (let n = (of_char c :: nat)
      in if (65 \<le> n \<and> n \<le> 90) \<or> (192 \<le> n \<and> n \<le> 214) \<or> (216 \<le> n \<and> n \<le> 222)
         then char_of (n + 32) else c)"

definition toLowerCase :: "string \<Rightarrow> string" where
  "toLowerCase s = map toLowerChar s"

section \<open>Text extraction utilities: date parsing\<close>

text \<open>
  A \<open>Date\<close> is read only through \<open>getUTCFullYear\<close>, \<open>getUTCMonth\<close> (0 to 11) and
  \<open>getUTCDate\<close>; the record holds these three components of a valid date.
\<close>

record jsDate =
  utcFullYear :: int
  utcMonth :: int
  utcDate :: int

text \<open>\<open>Date.UTC(year, month, day)\<close> of ECMAScript: MakeDay, MakeDate and TimeClip. The result is
  a number of milliseconds, or \<open>None\<close> for \<open>NaN\<close>.\<close>

definition dayFromYear :: "int \<Rightarrow> int" where
  "dayFromYear y = 365 * (y - 1970) + (y - 1969) div 4 - (y - 1901) div 100 + (y - 1601) div 400"

definition inLeapYear :: "int \<Rightarrow> bool" where
  "inLeapYear y = ((y mod 4 = 0 \<and> y mod 100 \<noteq> 0) \<or> y mod 400 = 0)"

definition monthStart :: "bool \<Rightarrow> nat \<Rightarrow> int" where
  "monthStart leap mn =
     [0, 31, 59, 90, 120, 151, 181, 212, 243, 273, 304, 334] ! mn
       + (if leap \<and> 2 \<le> mn then 1 else 0)"

definition makeDay :: "int \<Rightarrow> int \<Rightarrow> int \<Rightarrow> int" where
  "makeDay year month day =
     (let ym = year + month div 12; mn = nat (month mod 12)
      in dayFromYear ym + monthStart (inLeapYear ym) mn + day - 1)"

definition dateUTC :: "int \<Rightarrow> int \<Rightarrow> int \<Rightarrow> int option" where
  "dateUTC year month day =
     (let yr = (if 0 \<le> year \<and> year \<le> 99 then 1900 + year else year);
          ms = makeDay yr month day * 86400000
      in if \<bar>ms\<bar> \<le> 8640000000000000 then Some ms else None)"

text \<open>\<open>a < b\<close> on numbers: false as soon as one side is \<open>NaN\<close>.\<close>

definition numLess :: "int option \<Rightarrow> int option \<Rightarrow> bool" where
  "numLess a b = (case (a, b) of (Some x, Some y) \<Rightarrow> x < y | _ \<Rightarrow> False)"

definition inferYear :: "int \<Rightarrow> int \<Rightarrow> jsDate \<Rightarrow> int" where
  "inferYear month day referenceDate =
     (let referenceUTC = dateUTC (utcFullYear referenceDate) (utcMonth referenceDate)
                           (utcDate referenceDate);
          candidateUTC = dateUTC (utcFullYear referenceDate) (month - 1) day;
          oneMonthMs = 31 * 24 * 60 * 60 * 1000
      in if numLess candidateUTC (map_option (\<lambda>r. r - oneMonthMs) referenceUTC)
         then utcFullYear referenceDate + 1
         else utcFullYear referenceDate)"

definition monthMap :: "string \<rightharpoonup> int" where
  "monthMap = map_of
     [(''jan'', 1), (''january'', 1), (''feb'', 2), (''february'', 2), (''mar'', 3),
      (''march'', 3), (''apr'', 4), (''april'', 4), (''may'', 5), (''jun'', 6), (''june'', 6),
      (''jul'', 7), (''july'', 7), (''aug'', 8), (''august'', 8), (''sep'', 9), (''sept'', 9),
      (''september'', 9), (''oct'', 10), (''october'', 10), (''nov'', 11), (''november'', 11),
      (''dec'', 12), (''december'', 12)]"

text \<open>
  The three regular expressions, as backtracking matchers. \<open>digits12\<close> lists the ways
  \<open>\d{1,2}\<close> matches a prefix, the greedy one first, each with the rest of the text;
  \<open>search\<close> tries a matcher at every start position, leftmost first, as an unanchored
  \<open>String.prototype.match\<close> does.
\<close>

definition digits12 :: "string \<Rightarrow> (string \<times> string) list" where
  "digits12 s =
     (case s of
        [] \<Rightarrow> []
      | [a] \<Rightarrow> if isDigit a then [([a], [])] else []
      | a # b # r \<Rightarrow>
          if isDigit a \<and> isDigit b then [([a, b], r), ([a], b # r)]
          else if isDigit a then [([a], b # r)] else [])"

fun firstSome :: "('a \<Rightarrow> 'b option) \<Rightarrow> 'a list \<Rightarrow> 'b option" where
  "firstSome f [] = None"
| "firstSome f (x # xs) = (case f x of Some y \<Rightarrow> Some y | None \<Rightarrow> firstSome f xs)"

fun search :: "(string \<Rightarrow> 'a option) \<Rightarrow> string \<Rightarrow> 'a option" where
  "search m [] = m []"
| "search m (c # cs) = (case m (c # cs) of Some r \<Rightarrow> Some r | None \<Rightarrow> search m cs)"

text \<open>\<open>/(\d{1,2})\.(\d{1,2})/\<close>: the captured month and day.\<close>

definition matchDot :: "string \<Rightarrow> (string \<times> string) option" where
  "matchDot s = firstSome
     (\<lambda>(m, r). case r of
          c # r' \<Rightarrow> if c = CHR ''.'' then
                     (case digits12 r' of (d, _) # _ \<Rightarrow> Some (m, d) | [] \<Rightarrow> None)
                   else None
        | [] \<Rightarrow> None)
     (digits12 s)"

text \<open>\<open>\d{2,4}\<close>, greedy, as the last item of its expression.\<close>

definition digits24 :: "string \<Rightarrow> string option" where
  "digits24 s = (let d = takeWhile isDigit (take 4 s) in if 2 \<le> length d then Some d else None)"

text \<open>\<open>/(\d{1,2})\/(\d{1,2})(?:\/(\d{2,4}))?/\<close>: month, day and the optional year.\<close>

definition matchSlash :: "string \<Rightarrow> (string \<times> string \<times> string option) option" where
  "matchSlash s = firstSome
     (\<lambda>(m, r). case r of
          c # r' \<Rightarrow> if c = CHR ''/'' then
                     (case digits12 r' of
                        (d, r'') # _ \<Rightarrow>
                          Some (m, d, case r'' of
                                        c' # y \<Rightarrow> if c' = CHR ''/'' then digits24 y else None
                                      | [] \<Rightarrow> None)
                      | [] \<Rightarrow> None)
                   else None
        | [] \<Rightarrow> None)
     (digits12 s)"

text \<open>The month alternatives in the order the expression tries them: within one
  alternative the optional tail is tried before the short form.\<close>

definition monthNames :: "string list" where
  "monthNames =
     [''january'', ''jan'', ''february'', ''feb'', ''march'', ''mar'', ''april'', ''apr'',
      ''may'', ''june'', ''jun'', ''july'', ''jul'', ''august'', ''aug'', ''sept'',
      ''september'', ''sep'', ''october'', ''oct'', ''november'', ''nov'', ''december'',
      ''dec'']"

definition stripPrefix :: "string \<Rightarrow> string \<Rightarrow> string option" where
  "stripPrefix p s = (if take (length p) s = p then Some (drop (length p) s) else None)"

text \<open>\<open>(?:st|nd|rd|th)?\<close> and \<open>(?:,\s*(\d{4}))?\<close>, both greedy and optional.\<close>

definition skipOrdinal :: "string \<Rightarrow> string" where
  "skipOrdinal s = (if take 2 s \<in> set [''st'', ''nd'', ''rd'', ''th''] then drop 2 s else s)"

definition commaYear :: "string \<Rightarrow> string option" where
  "commaYear s =
     (case s of
        c # r \<Rightarrow>
          if c = CHR '','' then
            (let y = take 4 (dropWhile isSpace r)
             in if length y = 4 \<and> list_all isDigit y then Some y else None)
          else None
      | [] \<Rightarrow> None)"

definition matchMonthName :: "string \<Rightarrow> (string \<times> string \<times> string option) option" where
  "matchMonthName s = firstSome
     (\<lambda>name. case stripPrefix name s of
          None \<Rightarrow> None
        | Some r \<Rightarrow>
            if r \<noteq> [] \<and> isSpace (hd r) then
              (case digits12 (dropWhile isSpace r) of
                 (d, r') # _ \<Rightarrow> Some (name, d, commaYear (skipOrdinal r'))
               | [] \<Rightarrow> None)
            else None)
     monthNames"

definition formatISO :: "int \<Rightarrow> int \<Rightarrow> int \<Rightarrow> string" where
  "formatISO year month day =
     intToString year @ ''-'' @ padStart 2 (CHR ''0'') (intToString month) @ ''-''
       @ padStart 2 (CHR ''0'') (intToString day)"

definition parseDateISOFromText :: "string \<Rightarrow> jsDate \<Rightarrow> string" where
  "parseDateISOFromText value referenceDate =
     (let normalized = toLowerCase value in
      case search matchDot normalized of
        Some (m, d) \<Rightarrow>
          (let month = parseDigits m; day = parseDigits d;
               year = inferYear month day referenceDate
           in formatISO year month day)
      | None \<Rightarrow>
         (case search matchSlash normalized of
            Some (m, d, y) \<Rightarrow>
              (let month = parseDigits m; day = parseDigits d;
                   year = (case y of
                             Some ys \<Rightarrow> parseDigits (if length ys = 2 then ''20'' @ ys else ys)
                           | None \<Rightarrow> inferYear month day referenceDate)
               in formatISO year month day)
          | None \<Rightarrow>
             (case search matchMonthName normalized of
                Some (name, d, y) \<Rightarrow>
                  (let month = the (monthMap name); day = parseDigits d;
                       year = (case y of
                                 Some ys \<Rightarrow> parseDigits ys
                               | None \<Rightarrow> inferYear month day referenceDate)
                   in formatISO year month day)
              | None \<Rightarrow> [])))"

section \<open>Show records and matching keys\<close>

record VenueDataShow =
  showId :: string
  dateISO :: string
  startTime :: "string option"
  venueId :: string
  venueName :: string
  showUrl :: "string option"
  sourceUrl :: string
  headliners :: "string list"
  openers :: "string list"

definition buildShowKey :: "VenueDataShow \<Rightarrow> string" where
  "buildShowKey show =
     join ''|'' [dateISO show, orEmpty (startTime show), venueId show, orEmpty (showUrl show),
                 join '','' (headliners show), join '','' (openers show)]"

definition buildStableShowKey :: "VenueDataShow \<Rightarrow> string" where
  "buildStableShowKey show =
     join ''|'' [dateISO show, venueId show, orEmpty (showUrl show), join '','' (headliners show)]"

definition buildUrlKey :: "VenueDataShow \<Rightarrow> string" where
  "buildUrlKey show =
     (if orEmpty (showUrl show) \<noteq> [] then venueId show @ ''|'' @ orEmpty (showUrl show) else [])"

definition buildDateTimeKey :: "VenueDataShow \<Rightarrow> string" where
  "buildDateTimeKey show = venueId show @ ''|'' @ dateISO show @ ''|'' @ orEmpty (startTime show)"

definition buildHeadlinerTimeKey :: "VenueDataShow \<Rightarrow> string" where
  "buildHeadlinerTimeKey show =
     venueId show @ ''|'' @ dateISO show @ ''|'' @ orEmpty (startTime show) @ ''|''
       @ join '','' (headliners show)"

section \<open>Identity resolver and diff engine\<close>

record MatchState =
  matchedPrev :: "nat set"
  matchedNext :: "nat set"

text \<open>The first loop of \<open>tryMatch\<close>: the \<open>Map\<close> from a key to the indices of the previous
  records that carry it, in index order, skipping matched records and empty keys.\<close>

definition mapStep ::
  "VenueDataShow list \<Rightarrow> MatchState \<Rightarrow> (VenueDataShow \<Rightarrow> string) \<Rightarrow>
   (string \<rightharpoonup> nat list) \<Rightarrow> nat \<Rightarrow> (string \<rightharpoonup> nat list)" where
  "mapStep previous state keyFn m i =
     (if i \<in> matchedPrev state then m
      else let key = keyFn (previous ! i) in
        if key = [] then m
        else let list = (case m key of None \<Rightarrow> [] | Some l \<Rightarrow> l) in m(key \<mapsto> list @ [i]))"

definition buildMap ::
  "VenueDataShow list \<Rightarrow> MatchState \<Rightarrow> (VenueDataShow \<Rightarrow> string) \<Rightarrow> (string \<rightharpoonup> nat list)" where
  "buildMap previous state keyFn =
     foldl (mapStep previous state keyFn) Map.empty [0..<length previous]"

text \<open>The second loop: the state is updated in place, so it is threaded with the pairs.\<close>

definition matchStep ::
  "VenueDataShow list \<Rightarrow> (VenueDataShow \<Rightarrow> string) \<Rightarrow> (string \<rightharpoonup> nat list) \<Rightarrow>
   MatchState \<times> (nat \<times> nat) list \<Rightarrow> nat \<Rightarrow> MatchState \<times> (nat \<times> nat) list" where
  "matchStep next keyFn m acc j =
     (let state = fst acc; pairs = snd acc in
      if j \<in> matchedNext state then acc
      else let key = keyFn (next ! j) in
        if key = [] then acc
        else case m key of
               None \<Rightarrow> acc
             | Some list \<Rightarrow>
                 if length list \<noteq> 1 then acc
                 else let prevIndex = hd list in
                   (state\<lparr>matchedPrev := insert prevIndex (matchedPrev state),
                          matchedNext := insert j (matchedNext state)\<rparr>,
                    pairs @ [(prevIndex, j)]))"

definition tryMatch ::
  "VenueDataShow list \<Rightarrow> VenueDataShow list \<Rightarrow> MatchState \<Rightarrow> (VenueDataShow \<Rightarrow> string) \<Rightarrow>
   MatchState \<times> (nat \<times> nat) list" where
  "tryMatch previous next state keyFn =
     foldl (matchStep next keyFn (buildMap previous state keyFn)) (state, []) [0..<length next]"

definition emptyState :: MatchState where
  "emptyState = \<lparr>matchedPrev = {}, matchedNext = {}\<rparr>"

text \<open>\<open>for (const pair of pairs) result[pair.nextIndex].showId = previousShows[pair.prevIndex].showId\<close>\<close>

definition assignIds ::
  "VenueDataShow list \<Rightarrow> (nat \<times> nat) list \<Rightarrow> VenueDataShow list \<Rightarrow> VenueDataShow list" where
  "assignIds previousShows pairs result =
     foldl (\<lambda>r pair. r[snd pair := (r ! snd pair)\<lparr>showId := showId (previousShows ! fst pair)\<rparr>])
       result pairs"

definition preserveShowIds :: "VenueDataShow list \<Rightarrow> VenueDataShow list \<Rightarrow> VenueDataShow list" where
  "preserveShowIds nextShows previousShows =
     (let result = nextShows;
          state = emptyState;
          (state, exactPairs) = tryMatch previousShows result state buildShowKey;
          result = assignIds previousShows exactPairs result;
          (state, stablePairs) = tryMatch previousShows result state buildStableShowKey;
          result = assignIds previousShows stablePairs result;
          (state, urlPairs) = tryMatch previousShows result state buildUrlKey;
          result = assignIds previousShows urlPairs result;
          (state, dateTimePairs) = tryMatch previousShows result state buildDateTimeKey;
          result = assignIds previousShows dateTimePairs result;
          (state, headlinerTimePairs) = tryMatch previousShows result state buildHeadlinerTimeKey;
          result = assignIds previousShows headlinerTimePairs result
      in result)"

record DiffCounts =
  removed :: int
  unchanged :: int
  updated :: int
  added :: int

definition diffShows :: "VenueDataShow list \<Rightarrow> VenueDataShow list \<Rightarrow> DiffCounts" where
  "diffShows previous next =
     (let state = emptyState;
          (state, unchangedPairs) = tryMatch previous next state buildShowKey;
          (state, stablePairs) = tryMatch previous next state buildStableShowKey;
          (state, urlPairs) = tryMatch previous next state buildUrlKey;
          (state, dateTimePairs) = tryMatch previous next state buildDateTimeKey;
          (state, headlinerTimePairs) = tryMatch previous next state buildHeadlinerTimeKey;
          updatedPairs = stablePairs @ urlPairs @ dateTimePairs @ headlinerTimePairs
      in \<lparr>removed = int (length previous) - int (card (matchedPrev state)),
          unchanged = int (length unchangedPairs),
          updated = int (length updatedPairs),
          added = int (length next) - int (card (matchedNext state))\<rparr>)"


section \<open>Show normalizer\<close>

record ScrapedShow =
  date :: string
  time :: string
  artists :: "string list"
  roles :: "string list"
  venue :: string
  showUrl_row :: string
  sourcePageUrl :: string

text \<open>\<open>String.prototype.split\<close> on a one-character separator.\<close>

fun splitOn :: "char \<Rightarrow> string \<Rightarrow> string list" where
  "splitOn c [] = [[]]"
| "splitOn c (x # xs) =
     (if x = c then [] # splitOn c xs
      else (case splitOn c xs of p # ps \<Rightarrow> (x # p) # ps | [] \<Rightarrow> [[x]]))"

text \<open>\<open>Number.parseInt(s, 10)\<close>: leading white space, a sign, then the longest run of digits;
  \<open>None\<close> is \<open>NaN\<close>. The value is exact, as the source's is below \<open>2^53\<close>.\<close>

definition parseInt10 :: "string \<Rightarrow> int option" where
  "parseInt10 s =
     (let t = dropWhile isSpace s;
          neg = (t \<noteq> [] \<and> hd t = CHR ''-'');
          u = (if t \<noteq> [] \<and> (hd t = CHR ''-'' \<or> hd t = CHR ''+'') then tl t else t);
          d = takeWhile isDigit u
      in if d = [] then None
         else Some (if neg then - parseDigits d else parseDigits d))"

text \<open>The remainder operator \<open>%\<close> takes the sign of the dividend.\<close>

definition jsRem :: "int \<Rightarrow> int \<Rightarrow> int" where
  "jsRem a b = sgn a * (\<bar>a\<bar> mod \<bar>b\<bar>)"

definition formatTime12 :: "string \<Rightarrow> string option" where
  "formatTime12 time24 =
     (if time24 = [] then None
      else let parts = splitOn (CHR '':'') time24;
               hourText = hd parts;
               minutes = (case tl parts of [] \<Rightarrow> ''00'' | minuteText # _ \<Rightarrow> minuteText)
           in case parseInt10 hourText of
                None \<Rightarrow> None
              | Some hour \<Rightarrow>
                  (let meridiem = (if 12 \<le> hour then ''PM'' else ''AM'');
                       hour12 = (if jsRem hour 12 = 0 then 12 else jsRem hour 12)
                   in Some (intToString hour12 @ '':'' @ minutes @ '' '' @ meridiem)))"

text \<open>
  \<open>hashString\<close>: the shifts and \<open>^=\<close> work on 32-bit integers and the sum of the six terms is
  exact in a double, so every step is arithmetic modulo \<open>2^32\<close>.
\<close>

definition hashStep :: "32 word \<Rightarrow> char \<Rightarrow> 32 word" where
  "hashStep hash c =
     (let h = hash XOR of_nat (of_char c)
      in h + (push_bit 1 h + push_bit 4 h + push_bit 7 h + push_bit 8 h + push_bit 24 h))"

definition hashString :: "string \<Rightarrow> string" where
  "hashString value = padStart 8 (CHR ''0'') (digitsOf 16 (uint (foldl hashStep 0x811c9dc5 value)))"

definition buildShowId :: "string \<Rightarrow> string \<Rightarrow> string option \<Rightarrow> string list \<Rightarrow> string" where
  "buildShowId vId dISO sUrl hs = hashString (join ''|'' [vId, dISO, orEmpty sUrl, join '','' hs])"

text \<open>
  The grouping loop. The show objects live in the array \<open>shows\<close>; \<open>byKey\<close> and the search
  through the reversed array hand out references to them, modelled as indices into the array,
  so that a \<open>push\<close> through either reference updates the one object.
\<close>

record GroupState =
  byKey :: "string \<rightharpoonup> nat"
  showObjs :: "VenueDataShow list"

definition findLastIndex :: "('a \<Rightarrow> bool) \<Rightarrow> 'a list \<Rightarrow> nat option" where
  "findLastIndex P xs =
     (case filter (\<lambda>i. P (xs ! i)) (rev [0..<length xs]) of [] \<Rightarrow> None | i # _ \<Rightarrow> Some i)"

definition rowRole :: "ScrapedShow \<Rightarrow> string" where
  "rowRole item = (case roles item of [] \<Rightarrow> ''headliner'' | r # _ \<Rightarrow> r)"

definition rowUrl :: "ScrapedShow \<Rightarrow> string option" where
  "rowUrl item = (if showUrl_row item \<noteq> [] then Some (showUrl_row item) else None)"

definition rowKey :: "ScrapedShow \<Rightarrow> string option" where
  "rowKey item =
     (case rowUrl item of
        Some u \<Rightarrow> Some (''url:'' @ u)
      | None \<Rightarrow>
          if rowRole item = ''opener'' then None
          else Some (''date:'' @ date item @ ''|headliner:'' @ join '','' (artists item)))"

definition groupStep ::
  "string \<Rightarrow> string \<Rightarrow> string \<Rightarrow> GroupState \<Rightarrow> ScrapedShow \<Rightarrow> GroupState" where
  "groupStep vId vName srcUrl st item =
     (let role = rowRole item;
          key = rowKey item;
          found = (case key of Some k \<Rightarrow> byKey st k | None \<Rightarrow> None);
          found = (if found = None \<and> role = ''opener''
                   then findLastIndex
                          (\<lambda>existing. dateISO existing = date item \<and> showUrl existing = None)
                          (showObjs st)
                   else found);
          st = (case found of
                  Some _ \<Rightarrow> st
                | None \<Rightarrow>
                    \<lparr>byKey = (case key of
                                Some k \<Rightarrow> (byKey st)(k \<mapsto> length (showObjs st))
                              | None \<Rightarrow> byKey st),
                     showObjs = showObjs st @
                       [\<lparr>showId = [], dateISO = date item, startTime = formatTime12 (time item),
                         venueId = vId, venueName = vName, showUrl = rowUrl item,
                         sourceUrl = srcUrl, headliners = [], openers = []\<rparr>]\<rparr>);
          idx = (case found of Some i \<Rightarrow> i | None \<Rightarrow> length (showObjs st) - 1);
          show = showObjs st ! idx
      in st\<lparr>showObjs := (showObjs st)
              [idx := (if role = ''opener''
                       then show\<lparr>openers := openers show @ artists item\<rparr>
                       else show\<lparr>headliners := headliners show @ artists item\<rparr>)]\<rparr>)"

text \<open>\<open>Array.from(new Set(xs))\<close>: the first occurrence of each element, in order.\<close>

definition fromSet :: "'a list \<Rightarrow> 'a list" where
  "fromSet xs = foldl (\<lambda>acc x. if x \<in> set acc then acc else acc @ [x]) [] xs"

definition finishShow :: "VenueDataShow \<Rightarrow> VenueDataShow" where
  "finishShow show =
     (let hs = sort (fromSet (headliners show));
          os = sort (fromSet (openers show));
          sid = buildShowId (venueId show) (dateISO show) (showUrl show) hs
      in show\<lparr>showId := sid, headliners := hs, openers := os\<rparr>)"

text \<open>The \<open>Map\<close> of the deduplication keeps insertion order: an association list.\<close>

definition dedupeStep ::
  "(string \<times> VenueDataShow) list \<Rightarrow> VenueDataShow \<Rightarrow> (string \<times> VenueDataShow) list" where
  "dedupeStep deduped show =
     (let key = buildShowKey show
      in if map_of deduped key = None then deduped @ [(key, show)] else deduped)"

text \<open>
  \<open>localeCompare\<close> is the host's collation, which is not part of the repository; it is
  taken here as the comparison by code units, with which it agrees on the empty string, on ISO
  dates and on the formatted times.
\<close>

definition localeCompare :: "string \<Rightarrow> string \<Rightarrow> int" where
  "localeCompare a b = (if a < b then - 1 else if a = b then 0 else 1)"

definition compareShows :: "VenueDataShow \<Rightarrow> VenueDataShow \<Rightarrow> int" where
  "compareShows a b =
     (if dateISO a \<noteq> dateISO b then localeCompare (dateISO a) (dateISO b)
      else if orEmpty (startTime a) \<noteq> orEmpty (startTime b)
        then localeCompare (orEmpty (startTime a)) (orEmpty (startTime b))
      else localeCompare (join '','' (headliners a)) (join '','' (headliners b)))"

text \<open>\<open>Array.prototype.sort\<close> with a comparator is a stable sort: insertion from the right,
  an element going before the first one it does not compare greater than.\<close>

fun insertBy :: "('a \<Rightarrow> 'a \<Rightarrow> int) \<Rightarrow> 'a \<Rightarrow> 'a list \<Rightarrow> 'a list" where
  "insertBy cmp x [] = [x]"
| "insertBy cmp x (y # ys) = (if cmp x y \<le> 0 then x # y # ys else y # insertBy cmp x ys)"

definition sortBy :: "('a \<Rightarrow> 'a \<Rightarrow> int) \<Rightarrow> 'a list \<Rightarrow> 'a list" where
  "sortBy cmp xs = foldr (insertBy cmp) xs []"

definition groupShows :: "string \<Rightarrow> string \<Rightarrow> string \<Rightarrow> ScrapedShow list \<Rightarrow> VenueDataShow list" where
  "groupShows vId vName srcUrl scraped =
     showObjs (foldl (groupStep vId vName srcUrl) \<lparr>byKey = Map.empty, showObjs = []\<rparr> scraped)"

definition normalizeShows ::
  "string \<Rightarrow> string \<Rightarrow> string \<Rightarrow> ScrapedShow list \<Rightarrow> VenueDataShow list" where
  "normalizeShows vId vName srcUrl scraped =
     (let shows = groupShows vId vName srcUrl scraped;
          normalized = map finishShow shows;
          deduped = foldl dedupeStep [] normalized;
          finalShows = map snd deduped
      in sortBy compareShows finalShows)"

section \<open>Batch orchestrator: the write gate\<close>

record VenueConfig =
  id_venue :: string
  name :: string
  calendarUrl :: string

record VenueDataFile =
  venueInfo :: VenueConfig
  generatedAtISO :: string
  fileShows :: "VenueDataShow list"

text \<open>
  The output directory holds one file per venue, addressed here by the venue id. A file that
  is there need not parse: \<open>readFile\<close> and \<open>JSON.parse\<close> stand in one \<open>try\<close> block whose
  \<open>catch\<close> sets \<open>previous = null\<close>.
\<close>

datatype fileContent = Json VenueDataFile | Unparsable

type_synonym disk = "string \<rightharpoonup> fileContent"

definition readPrevious :: "disk \<Rightarrow> string \<Rightarrow> VenueDataFile option" where
  "readPrevious d vid =
     (case d vid of None \<Rightarrow> None | Some Unparsable \<Rightarrow> None | Some (Json f) \<Rightarrow> Some f)"

record VenueRun =
  showsWithIds :: "VenueDataShow list"
  countsAll :: DiffCounts
  countsFuture :: DiffCounts
  shouldWrite :: bool
  payload :: VenueDataFile

text \<open>The body of the loop over the venues from \<open>normalizeShows\<close> to the payload, for the
  rows \<open>scraped\<close> and the result \<open>previous\<close> of reading the venue's file.\<close>

definition venueRun ::
  "string \<Rightarrow> string \<Rightarrow> VenueConfig \<Rightarrow> ScrapedShow list \<Rightarrow> VenueDataFile option \<Rightarrow> VenueRun" where
  "venueRun todayISO genISO v scraped previous =
     (let nextShows = normalizeShows (id_venue v) (name v) (calendarUrl v) scraped;
          previousShows = (case previous of None \<Rightarrow> [] | Some f \<Rightarrow> fileShows f);
          withIds = preserveShowIds nextShows previousShows;
          futurePrevious = filter (\<lambda>show. todayISO \<le> dateISO show) previousShows;
          futureNext = filter (\<lambda>show. todayISO \<le> dateISO show) withIds;
          cAll = diffShows previousShows withIds;
          cFuture = diffShows futurePrevious futureNext
      in \<lparr>showsWithIds = withIds, countsAll = cAll, countsFuture = cFuture,
          shouldWrite = (previous = None \<or> 0 < updated cFuture \<or> 0 < added cFuture
                          \<or> 0 < removed cFuture),
          payload = \<lparr>venueInfo = \<lparr>id_venue = id_venue v, name = name v,
                                   calendarUrl = calendarUrl v\<rparr>,
                     generatedAtISO = genISO, fileShows = withIds\<rparr>\<rparr>)"

record RunState =
  files :: disk
  hadFatal :: bool

text \<open>One iteration of the loop: \<open>error\<close> is the scraper's error message (\<open>None\<close> for
  \<open>null\<close>), and a truthy one skips the venue.\<close>

definition processVenue ::
  "string \<Rightarrow> string \<Rightarrow> RunState \<Rightarrow> VenueConfig \<times> ScrapedShow list \<times> string option \<Rightarrow> RunState" where
  "processVenue todayISO genISO st input =
     (let v = fst input; scraped = fst (snd input); error = snd (snd input)
      in if orEmpty error \<noteq> [] then st\<lparr>hadFatal := True\<rparr>
         else let run = venueRun todayISO genISO v scraped (readPrevious (files st) (id_venue v))
              in if shouldWrite run
                 then st\<lparr>files := (files st)(id_venue v \<mapsto> Json (payload run))\<rparr>
                 else st)"

definition runVenues ::
  "string \<Rightarrow> string \<Rightarrow> disk \<Rightarrow> (VenueConfig \<times> ScrapedShow list \<times> string option) list \<Rightarrow> RunState" where
  "runVenues todayISO genISO d selected =
     foldl (processVenue todayISO genISO) \<lparr>files = d, hadFatal = False\<rparr> selected"


section \<open>The resolver over an explicit store\<close>

text \<open>
  \<open>preserveShowIds\<close> once more, over an explicit store that accounts for the sharing of
  objects between the arrays: the heap is
  the list of all show objects, an array is the list of the addresses of its elements, and
  \<open>nextShows.map((show) => ({ ...show }))\<close> allocates one new object per element. The lists
  of names inside a show stay values: the copies share them with the originals, and nothing
  in \<open>tryMatch\<close> or \<open>preserveShowIds\<close> writes to them.
\<close>

type_synonym heap = "VenueDataShow list"

definition deref :: "heap \<Rightarrow> nat list \<Rightarrow> VenueDataShow list" where
  "deref h refs = map (\<lambda>a. h ! a) refs"

definition writeIds :: "nat list \<Rightarrow> nat list \<Rightarrow> (nat \<times> nat) list \<Rightarrow> heap \<Rightarrow> heap" where
  "writeIds previousShows result pairs h =
     foldl (\<lambda>h pair. h[result ! snd pair :=
                         (h ! (result ! snd pair))\<lparr>showId := showId (h ! (previousShows ! fst pair))\<rparr>])
       h pairs"

definition preserveShowIdsHeap :: "heap \<Rightarrow> nat list \<Rightarrow> nat list \<Rightarrow> heap \<times> nat list" where
  "preserveShowIdsHeap h nextShows previousShows =
     (let result = [length h..<length h + length nextShows];
          h = h @ deref h nextShows;
          state = emptyState;
          (state, exactPairs) =
            tryMatch (deref h previousShows) (deref h result) state buildShowKey;
          h = writeIds previousShows result exactPairs h;
          (state, stablePairs) =
            tryMatch (deref h previousShows) (deref h result) state buildStableShowKey;
          h = writeIds previousShows result stablePairs h;
          (state, urlPairs) =
            tryMatch (deref h previousShows) (deref h result) state buildUrlKey;
          h = writeIds previousShows result urlPairs h;
          (state, dateTimePairs) =
            tryMatch (deref h previousShows) (deref h result) state buildDateTimeKey;
          h = writeIds previousShows result dateTimePairs h;
          (state, headlinerTimePairs) =
            tryMatch (deref h previousShows) (deref h result) state buildHeadlinerTimeKey;
          h = writeIds previousShows result headlinerTimePairs h
      in (h, result))"

section \<open>Notions used in the statements\<close>

text \<open>
  What one pass of \<open>tryMatch\<close> computes, stated without the loops: the previous records that
  were unmatched when the pass began and carry a given key, and the previous record a next
  record is paired with.
\<close>

definition candidates ::
  "VenueDataShow list \<Rightarrow> nat set \<Rightarrow> (VenueDataShow \<Rightarrow> string) \<Rightarrow> string \<Rightarrow> nat list" where
  "candidates previous mp keyFn key =
     filter (\<lambda>i. i \<notin> mp \<and> keyFn (previous ! i) = key) [0..<length previous]"

definition matchOf ::
  "VenueDataShow list \<Rightarrow> VenueDataShow list \<Rightarrow> MatchState \<Rightarrow> (VenueDataShow \<Rightarrow> string) \<Rightarrow>
   nat \<Rightarrow> nat option" where
  "matchOf previous next state keyFn j =
     (if j \<in> matchedNext state \<or> keyFn (next ! j) = [] then None
      else case candidates previous (matchedPrev state) keyFn (keyFn (next ! j)) of
             [i] \<Rightarrow> Some i
           | _ \<Rightarrow> None)"

fun passes ::
  "VenueDataShow list \<Rightarrow> VenueDataShow list \<Rightarrow> MatchState \<Rightarrow> (VenueDataShow \<Rightarrow> string) list \<Rightarrow>
   MatchState \<times> (nat \<times> nat) list list" where
  "passes previous next state [] = (state, [])"
| "passes previous next state (keyFn # keyFns) =
     (let r = tryMatch previous next state keyFn;
          rs = passes previous next (fst r) keyFns
      in (fst rs, snd r # snd rs))"

definition strategies :: "(VenueDataShow \<Rightarrow> string) list" where
  "strategies =
     [buildShowKey, buildStableShowKey, buildUrlKey, buildDateTimeKey, buildHeadlinerTimeKey]"

definition cascade :: "VenueDataShow list \<Rightarrow> VenueDataShow list \<Rightarrow> (nat \<times> nat) list list" where
  "cascade previous next = snd (passes previous next emptyState strategies)"

text \<open>A key function that does not read \<open>showId\<close>.\<close>

definition idFree :: "(VenueDataShow \<Rightarrow> string) \<Rightarrow> bool" where
  "idFree keyFn = (\<forall>s x. keyFn (s\<lparr>showId := x\<rparr>) = keyFn s)"

text \<open>The order the comparator of \<open>normalizeShows\<close> induces: by date, then by start time with
  an unknown time read as the empty string, then by the joined headliner names.\<close>

definition sortKey :: "VenueDataShow \<Rightarrow> string \<times> string \<times> string" where
  "sortKey show = (dateISO show, orEmpty (startTime show), join '','' (headliners show))"

text \<open>The parts of one step of the grouping loop.\<close>

definition groupFind :: "GroupState \<Rightarrow> ScrapedShow \<Rightarrow> nat option" where
  "groupFind st item =
     (let found = (case rowKey item of Some k \<Rightarrow> byKey st k | None \<Rightarrow> None)
      in if found = None \<and> rowRole item = ''opener''
         then findLastIndex (\<lambda>existing. dateISO existing = date item \<and> showUrl existing = None)
                (showObjs st)
         else found)"

definition addArtists :: "ScrapedShow \<Rightarrow> VenueDataShow \<Rightarrow> VenueDataShow" where
  "addArtists item show =
     (if rowRole item = ''opener'' then show\<lparr>openers := openers show @ artists item\<rparr>
      else show\<lparr>headliners := headliners show @ artists item\<rparr>)"

definition newShow :: "string \<Rightarrow> string \<Rightarrow> string \<Rightarrow> ScrapedShow \<Rightarrow> VenueDataShow" where
  "newShow vId vName srcUrl item =
     \<lparr>showId = [], dateISO = date item, startTime = formatTime12 (time item),
      venueId = vId, venueName = vName, showUrl = rowUrl item,
      sourceUrl = srcUrl, headliners = [], openers = []\<rparr>"

text \<open>
  Rows as the venue parsers emit them: every row that is not an opener row names an artist,
  and every opener row follows a row of its own show, that is, a row with the same URL or,
  without a URL, a row without a URL for the same date. Dates hold no \<open>|\<close>.
\<close>

definition sameShowSeen :: "ScrapedShow list \<Rightarrow> ScrapedShow \<Rightarrow> bool" where
  "sameShowSeen seen r =
     (\<exists>r'\<in>set seen. if showUrl_row r \<noteq> [] then showUrl_row r' = showUrl_row r
                     else showUrl_row r' = [] \<and> date r' = date r)"

definition rowOk :: "ScrapedShow list \<Rightarrow> ScrapedShow \<Rightarrow> bool" where
  "rowOk seen r =
     (CHR ''|'' \<notin> set (date r)
      \<and> (if rowRole r = ''opener'' then sameShowSeen seen r else artists r \<noteq> []))"

fun headlinersFirst :: "ScrapedShow list \<Rightarrow> ScrapedShow list \<Rightarrow> bool" where
  "headlinersFirst seen [] = True"
| "headlinersFirst seen (r # rs) = (rowOk seen r \<and> headlinersFirst (seen @ [r]) rs)"

text \<open>The invariant of the grouping loop under \<open>headlinersFirst\<close>.\<close>

definition groupInv :: "GroupState \<Rightarrow> ScrapedShow list \<Rightarrow> bool" where
  "groupInv st seen =
     ((\<forall>s\<in>set (showObjs st). headliners s \<noteq> [])
      \<and> (\<forall>k idx. byKey st k = Some idx \<longrightarrow> idx < length (showObjs st))
      \<and> (\<forall>D A idx. byKey st (''date:'' @ D @ ''|headliner:'' @ A) = Some idx \<and> CHR ''|'' \<notin> set D
            \<longrightarrow> dateISO (showObjs st ! idx) = D \<and> showUrl (showObjs st ! idx) = None)
      \<and> (\<forall>r\<in>set seen. showUrl_row r \<noteq> [] \<longrightarrow> byKey st (''url:'' @ showUrl_row r) \<noteq> None)
      \<and> (\<forall>r\<in>set seen. showUrl_row r = [] \<longrightarrow>
            (\<exists>s\<in>set (showObjs st). dateISO s = date r \<and> showUrl s = None)))"




section \<open>Example data\<close>

text \<open>The reference date of the date-inference examples, 2026-01-05 (months count from 0).\<close>

definition ref20260105 :: jsDate where
  "ref20260105 = \<lparr>utcFullYear = 2026, utcMonth = 0, utcDate = 5\<rparr>"

text \<open>The batches of the identity-continuity example: one previous show with identifier
  \<open>old\<close>, and the same show scraped again with an opener added.\<close>

definition showOld :: VenueDataShow where
  "showOld = \<lparr>showId = ''old'', dateISO = ''2026-01-10'', startTime = Some ''8:00 PM'',
     venueId = ''bottom-of-the-hill'', venueName = ''Bottom of the Hill'',
     showUrl = Some ''https://www.bottomofthehill.com/20260110.html'',
     sourceUrl = ''https://www.bottomofthehill.com/calendar.html'',
     headliners = [''A''], openers = []\<rparr>"

definition showWithOpener :: VenueDataShow where
  "showWithOpener = showOld\<lparr>showId := ''1375819c'', openers := [''NewOpener'']\<rparr>"



text \<open>
  The data of the repository's update test: the venue, a previous file with a show dated
  2026-01-03 that is no longer scraped and a show dated 2026-01-10, and the rows scraped for
  the latter, unchanged or with another opener. Today is 2026-01-05.
\<close>

definition exVenue :: VenueConfig where
  "exVenue = \<lparr>id_venue = ''bottom-of-the-hill'', name = ''Bottom of the Hill'',
     calendarUrl = ''https://www.bottomofthehill.com/calendar.html''\<rparr>"

definition exPast :: VenueDataShow where
  "exPast = \<lparr>showId = ''remove'', dateISO = ''2026-01-03'', startTime = Some ''8:00 PM'',
     venueId = ''bottom-of-the-hill'', venueName = ''Bottom of the Hill'',
     showUrl = Some ''https://www.bottomofthehill.com/20260103.html'',
     sourceUrl = ''https://www.bottomofthehill.com/calendar.html'',
     headliners = [''Removed Headliner''], openers = [''Removed Opener'']\<rparr>"

definition exKept :: VenueDataShow where
  "exKept = \<lparr>showId = ''unchanged'', dateISO = ''2026-01-10'', startTime = Some ''8:00 PM'',
     venueId = ''bottom-of-the-hill'', venueName = ''Bottom of the Hill'',
     showUrl = Some ''https://www.bottomofthehill.com/20260110.html'',
     sourceUrl = ''https://www.bottomofthehill.com/calendar.html'',
     headliners = [''Unchanged Headliner''], openers = [''Unchanged Opener'']\<rparr>"

definition exRow :: "string \<Rightarrow> string \<Rightarrow> ScrapedShow" where
  "exRow role artist = \<lparr>date = ''2026-01-10'', time = ''20:00'', artists = [artist],
     roles = [role], venue = ''bottom-of-the-hill'',
     showUrl_row = ''https://www.bottomofthehill.com/20260110.html'',
     sourcePageUrl = ''https://www.bottomofthehill.com/calendar.html''\<rparr>"

definition exFile :: VenueDataFile where
  "exFile = \<lparr>venueInfo = exVenue, generatedAtISO = ''2026-01-01T00:00:00.000Z'',
     fileShows = [exPast, exKept]\<rparr>"

definition exState :: RunState where
  "exState = \<lparr>files = [''bottom-of-the-hill'' \<mapsto> Json exFile], hadFatal = False\<rparr>"

definition exRowsKept :: "ScrapedShow list" where
  "exRowsKept = [exRow ''headliner'' ''Unchanged Headliner'', exRow ''opener'' ''Unchanged Opener'']"

definition exRowsChanged :: "ScrapedShow list" where
  "exRowsChanged = [exRow ''headliner'' ''Unchanged Headliner'', exRow ''opener'' ''Updated Opener'']"

definition exToday :: string where
  "exToday = ''2026-01-05''"

definition exGenerated :: string where
  "exGenerated = ''2026-01-05T12:00:00.000Z''"




section \<open>Date inference\<close>

text \<open>
  Claim C8, as amended: with the reference date 2026-01-05, \<open>parseDateISOFromText "12.31"\<close>
  returns \<open>2026-12-31\<close> and \<open>parseDateISOFromText "3.15"\<close> returns \<open>2026-03-15\<close>. The year
  is never rolled back: \<open>inferYear\<close> returns the reference year or the one after it.
\<close>

theorem parseDate_dot_cases:
  "parseDateISOFromText ''12.31'' ref20260105 = ''2026-12-31''
   \<and> parseDateISOFromText ''3.15'' ref20260105 = ''2026-03-15''
   \<and> utcFullYear r \<le> inferYear m d r"
proof -
  have a: "parseDateISOFromText ''12.31'' ref20260105 = ''2026-12-31''"
    by code_simp
  have b: "parseDateISOFromText ''3.15'' ref20260105 = ''2026-03-15''"
    by code_simp
  show ?thesis using a b by (simp add: inferYear_def Let_def)
qed

text \<open>Claim C8 as stated fails: the result for \<open>"12.31"\<close> is not \<open>2025-12-31\<close>.\<close>

theorem parseDate_rollback_counterexample:
  "parseDateISOFromText ''12.31'' ref20260105 \<noteq> ''2025-12-31''"
  by code_simp

section \<open>One pass of the matching cascade\<close>

lemma mapStep_lookup:
  assumes "key \<noteq> []"
  shows "mapStep previous state keyFn m i key =
     (if i \<notin> matchedPrev state \<and> keyFn (previous ! i) = key
      then Some ((case m key of None \<Rightarrow> [] | Some l \<Rightarrow> l) @ [i]) else m key)"
  using assms by (auto simp: mapStep_def Let_def)

lemma foldl_mapStep:
  assumes "key \<noteq> []"
  shows "foldl (mapStep previous state keyFn) m is key =
     (let c = filter (\<lambda>i. i \<notin> matchedPrev state \<and> keyFn (previous ! i) = key) is
      in if c = [] then m key else Some ((case m key of None \<Rightarrow> [] | Some l \<Rightarrow> l) @ c))"
proof (induction "is" arbitrary: m)
  case Nil
  then show ?case by simp
next
  case (Cons i "is")
  have "foldl (mapStep previous state keyFn) m (i # is) key =
        foldl (mapStep previous state keyFn) (mapStep previous state keyFn m i) is key"
    by simp
  also have "\<dots> =
     (let c = filter (\<lambda>i. i \<notin> matchedPrev state \<and> keyFn (previous ! i) = key) is
      in if c = [] then mapStep previous state keyFn m i key
         else Some ((case mapStep previous state keyFn m i key of None \<Rightarrow> [] | Some l \<Rightarrow> l) @ c))"
    by (rule Cons.IH)
  also have "\<dots> =
     (let c = filter (\<lambda>i. i \<notin> matchedPrev state \<and> keyFn (previous ! i) = key) (i # is)
      in if c = [] then m key else Some ((case m key of None \<Rightarrow> [] | Some l \<Rightarrow> l) @ c))"
    by (simp add: mapStep_lookup [OF assms] Let_def)
  finally show ?case .
qed

lemma buildMap_lookup:
  assumes "key \<noteq> []"
  shows "buildMap previous state keyFn key =
     (if candidates previous (matchedPrev state) keyFn key = [] then None
      else Some (candidates previous (matchedPrev state) keyFn key))"
  using foldl_mapStep [OF assms, of previous state keyFn Map.empty "[0..<length previous]"]
  by (simp add: buildMap_def candidates_def Let_def)

lemma matchStep_eq:
  assumes "j \<in> matchedNext st' \<longleftrightarrow> j \<in> matchedNext state"
  shows "matchStep next keyFn (buildMap previous state keyFn) (st', ps) j =
     (case matchOf previous next state keyFn j of
        None \<Rightarrow> (st', ps)
      | Some i \<Rightarrow> (st'\<lparr>matchedPrev := insert i (matchedPrev st'),
                       matchedNext := insert j (matchedNext st')\<rparr>, ps @ [(i, j)]))"
proof (cases "j \<in> matchedNext state \<or> keyFn (next ! j) = []")
  case True
  then show ?thesis using assms by (auto simp: matchStep_def matchOf_def Let_def)
next
  case False
  then have k: "keyFn (next ! j) \<noteq> []" and nj: "j \<notin> matchedNext st'"
    using assms by auto
  show ?thesis
    using False nj
    by (auto simp: matchStep_def matchOf_def Let_def buildMap_lookup [OF k]
        split: list.splits)
qed

lemma foldl_matchStep:
  assumes "distinct js" and "\<forall>j\<in>set js. j \<in> matchedNext st' \<longleftrightarrow> j \<in> matchedNext state"
  shows "foldl (matchStep next keyFn (buildMap previous state keyFn)) (st', ps) js =
     (st'\<lparr>matchedPrev := matchedPrev st' \<union>
              {i. \<exists>j\<in>set js. matchOf previous next state keyFn j = Some i},
           matchedNext := matchedNext st' \<union>
              {j \<in> set js. matchOf previous next state keyFn j \<noteq> None}\<rparr>,
      ps @ List.map_filter
             (\<lambda>j. map_option (\<lambda>i. (i, j)) (matchOf previous next state keyFn j)) js)"
  using assms
proof (induction js arbitrary: st' ps)
  case Nil
  then show ?case by (simp add: List.map_filter_simps)
next
  case (Cons j js)
  have hd: "j \<in> matchedNext st' \<longleftrightarrow> j \<in> matchedNext state"
    using Cons.prems by simp
  show ?case
  proof (cases "matchOf previous next state keyFn j")
    case None
    have "\<forall>j'\<in>set js. j' \<in> matchedNext st' \<longleftrightarrow> j' \<in> matchedNext state"
      using Cons.prems by simp
    then show ?thesis
      using Cons.prems None Cons.IH [of st' ps]
      by (simp add: matchStep_eq [OF hd] List.map_filter_simps)
        (rule MatchState.equality; auto simp: None)
  next
    case (Some i)
    let ?st = "st'\<lparr>matchedPrev := insert i (matchedPrev st'),
                   matchedNext := insert j (matchedNext st')\<rparr>"
    have "\<forall>j'\<in>set js. j' \<in> matchedNext ?st \<longleftrightarrow> j' \<in> matchedNext state"
      using Cons.prems by auto
    then show ?thesis
      using Cons.prems Some Cons.IH [of ?st "ps @ [(i, j)]"]
      by (simp add: matchStep_eq [OF hd] List.map_filter_simps)
        (rule MatchState.equality; auto simp: Some)
  qed
qed

lemma tryMatch_eq:
  "tryMatch previous next state keyFn =
     (state\<lparr>matchedPrev := matchedPrev state \<union>
              {i. \<exists>j<length next. matchOf previous next state keyFn j = Some i},
           matchedNext := matchedNext state \<union>
              {j. j < length next \<and> matchOf previous next state keyFn j \<noteq> None}\<rparr>,
      List.map_filter
             (\<lambda>j. map_option (\<lambda>i. (i, j)) (matchOf previous next state keyFn j))
             [0..<length next])"
  using foldl_matchStep [of "[0..<length next]" state state "next" keyFn previous "[]"]
  by (simp add: tryMatch_def) (rule MatchState.equality; auto)

lemma map_snd_map_filter:
  "map snd (List.map_filter (\<lambda>j. map_option (\<lambda>i. (i, j)) (g j)) js) = filter (\<lambda>j. g j \<noteq> None) js"
  by (induction js) (auto simp: List.map_filter_simps split: option.splits)

lemma set_map_filter:
  "set (List.map_filter f xs) = {y. \<exists>x\<in>set xs. f x = Some y}"
  by (induction xs) (auto split: option.splits)

lemma tryMatch_pairs_iff:
  "(i, j) \<in> set (snd (tryMatch previous next state keyFn)) \<longleftrightarrow>
     j < length next \<and> matchOf previous next state keyFn j = Some i"
  by (auto simp: tryMatch_eq set_map_filter)

lemma tryMatch_distinct_next:
  "distinct (map snd (snd (tryMatch previous next state keyFn)))"
  by (simp add: tryMatch_eq map_snd_map_filter)

lemma tryMatch_matchedPrev:
  "matchedPrev (fst (tryMatch previous next state keyFn)) =
     matchedPrev state \<union> fst ` set (snd (tryMatch previous next state keyFn))"
  by (force simp: tryMatch_eq set_map_filter)

lemma tryMatch_matchedNext:
  "matchedNext (fst (tryMatch previous next state keyFn)) =
     matchedNext state \<union> snd ` set (snd (tryMatch previous next state keyFn))"
  by (force simp: tryMatch_eq set_map_filter)

lemma candidates_single:
  "candidates previous mp keyFn key = [i] \<Longrightarrow>
     i < length previous \<and> i \<notin> mp \<and> keyFn (previous ! i) = key"
proof -
  assume "candidates previous mp keyFn key = [i]"
  then have "i \<in> set (candidates previous mp keyFn key)" by simp
  then show ?thesis by (simp add: candidates_def)
qed

lemma matchOf_Some:
  assumes "matchOf previous next state keyFn j = Some i"
  shows "i < length previous" and "i \<notin> matchedPrev state" and "j \<notin> matchedNext state"
    and "keyFn (previous ! i) = keyFn (next ! j)" and "keyFn (next ! j) \<noteq> []"
    and "candidates previous (matchedPrev state) keyFn (keyFn (next ! j)) = [i]"
proof -
  have c: "candidates previous (matchedPrev state) keyFn (keyFn (next ! j)) = [i]"
    and n: "j \<notin> matchedNext state" and k: "keyFn (next ! j) \<noteq> []"
    using assms by (auto simp: matchOf_def split: if_splits list.splits)
  show "i < length previous" "i \<notin> matchedPrev state" "keyFn (previous ! i) = keyFn (next ! j)"
    using candidates_single [OF c] by simp_all
  show "j \<notin> matchedNext state" "keyFn (next ! j) \<noteq> []"
    "candidates previous (matchedPrev state) keyFn (keyFn (next ! j)) = [i]"
    using c n k by simp_all
qed

lemma tryMatch_pair_range:
  assumes "(i, j) \<in> set (snd (tryMatch previous next state keyFn))"
  shows "i < length previous \<and> j < length next \<and> i \<notin> matchedPrev state \<and> j \<notin> matchedNext state"
  using assms matchOf_Some [of previous "next" state keyFn j i]
  by (simp add: tryMatch_pairs_iff)

lemma matchOf_cong:
  assumes "keyFn (next ! j) = keyFn (next' ! j)"
  shows "matchOf previous next state keyFn j = matchOf previous next' state keyFn j"
  using assms by (simp add: matchOf_def)

lemma tryMatch_cong:
  assumes "length next = length next'" and "\<forall>j<length next. keyFn (next ! j) = keyFn (next' ! j)"
  shows "tryMatch previous next state keyFn = tryMatch previous next' state keyFn"
proof -
  have m: "\<forall>j<length next. matchOf previous next state keyFn j = matchOf previous next' state keyFn j"
    using assms(2) matchOf_cong by blast
  have "List.map_filter (\<lambda>j. map_option (\<lambda>i. (i, j)) (matchOf previous next state keyFn j))
          [0..<length next]
      = List.map_filter (\<lambda>j. map_option (\<lambda>i. (i, j)) (matchOf previous next' state keyFn j))
          [0..<length next]"
    unfolding List.map_filter_def using m by (auto intro!: map_cong filter_cong)
  moreover have "{i. \<exists>j<length next. matchOf previous next state keyFn j = Some i}
      = {i. \<exists>j<length next. matchOf previous next' state keyFn j = Some i}"
    using m by auto
  moreover have "{j. j < length next \<and> matchOf previous next state keyFn j \<noteq> None}
      = {j. j < length next \<and> matchOf previous next' state keyFn j \<noteq> None}"
    using m by auto
  ultimately show ?thesis
    unfolding tryMatch_eq using assms(1) by simp
qed



lemma passes_range:
  assumes "(i, j) \<in> set (concat (snd (passes previous next state keyFns)))"
  shows "i < length previous \<and> j < length next \<and> i \<notin> matchedPrev state \<and> j \<notin> matchedNext state"
  using assms
proof (induction keyFns arbitrary: state)
  case Nil
  then show ?case by simp
next
  case (Cons keyFn keyFns)
  let ?r = "tryMatch previous next state keyFn"
  from Cons.prems consider
    (a) "(i, j) \<in> set (snd ?r)"
    | (b) "(i, j) \<in> set (concat (snd (passes previous next (fst ?r) keyFns)))"
    by (auto simp: Let_def)
  then show ?case
  proof cases
    case a
    then show ?thesis by (rule tryMatch_pair_range)
  next
    case b
    from Cons.IH [OF b] show ?thesis
      by (simp add: tryMatch_matchedPrev tryMatch_matchedNext)
  qed
qed

lemma passes_distinct_next:
  "distinct (map snd (concat (snd (passes previous next state keyFns))))"
proof (induction keyFns arbitrary: state)
  case Nil
  then show ?case by simp
next
  case (Cons keyFn keyFns)
  let ?r = "tryMatch previous next state keyFn"
  have "snd ` set (snd ?r) \<inter> snd ` set (concat (snd (passes previous next (fst ?r) keyFns))) = {}"
  proof -
    have "j \<notin> snd ` set (snd ?r)"
      if "(i, j) \<in> set (concat (snd (passes previous next (fst ?r) keyFns)))" for i j
      using passes_range [OF that] by (simp add: tryMatch_matchedNext)
    then show ?thesis by (auto simp: disjoint_iff) (metis snd_conv image_eqI)
  qed
  then show ?case
    using Cons.IH [of "fst ?r"] tryMatch_distinct_next [of previous "next" state keyFn]
    by (simp add: Let_def)
qed

section \<open>The cascade\<close>

lemma idFree_keys:
  "idFree buildShowKey" "idFree buildStableShowKey" "idFree buildUrlKey"
  "idFree buildDateTimeKey" "idFree buildHeadlinerTimeKey"
  by (simp_all add: idFree_def buildShowKey_def buildStableShowKey_def buildUrlKey_def
      buildDateTimeKey_def buildHeadlinerTimeKey_def)

lemma assignIds_Nil: "assignIds previousShows [] r = r"
  by (simp add: assignIds_def)

lemma assignIds_Cons:
  "assignIds previousShows (p # ps) r =
     assignIds previousShows ps (r[snd p := (r ! snd p)\<lparr>showId := showId (previousShows ! fst p)\<rparr>])"
  by (simp add: assignIds_def)

lemma assignIds_append:
  "assignIds previousShows (ps @ qs) r = assignIds previousShows qs (assignIds previousShows ps r)"
  by (simp add: assignIds_def)

lemma assignIds_length: "length (assignIds previousShows ps r) = length r"
  by (induction ps arbitrary: r) (simp_all add: assignIds_Nil assignIds_Cons)

lemma assignIds_frame:
  "j < length r \<Longrightarrow> (assignIds previousShows ps r ! j)\<lparr>showId := x\<rparr> = (r ! j)\<lparr>showId := x\<rparr>"
proof (induction ps arbitrary: r)
  case Nil
  then show ?case by (simp add: assignIds_Nil)
next
  case (Cons p ps)
  then show ?case
    by (cases "snd p = j") (simp_all add: assignIds_Cons)
qed

lemma assignIds_untouched:
  "j \<notin> snd ` set ps \<Longrightarrow> assignIds previousShows ps r ! j = r ! j"
  by (induction ps arbitrary: r) (auto simp: assignIds_Nil assignIds_Cons)


lemma idFree_assignIds:
  assumes "idFree keyFn" and "j < length r"
  shows "keyFn (assignIds previousShows ps r ! j) = keyFn (r ! j)"
proof -
  have "keyFn (assignIds previousShows ps r ! j)
      = keyFn ((assignIds previousShows ps r ! j)\<lparr>showId := []\<rparr>)"
    using assms(1) by (simp add: idFree_def)
  also have "\<dots> = keyFn ((r ! j)\<lparr>showId := []\<rparr>)"
    using assignIds_frame [OF assms(2)] by simp
  also have "\<dots> = keyFn (r ! j)"
    using assms(1) by (simp add: idFree_def)
  finally show ?thesis .
qed

lemma tryMatch_assignIds:
  assumes "idFree keyFn"
  shows "tryMatch previous (assignIds previousShows ps r) state keyFn = tryMatch previous r state keyFn"
  by (rule tryMatch_cong) (simp_all add: assignIds_length idFree_assignIds [OF assms])

lemma preserveShowIds_cascade:
  "preserveShowIds nextShows previousShows =
     assignIds previousShows (concat (cascade previousShows nextShows)) nextShows"
  by (simp add: preserveShowIds_def cascade_def strategies_def Let_def split_def
      tryMatch_assignIds idFree_keys assignIds_append assignIds_Nil)


lemma cascade_distinct_next: "distinct (map snd (concat (cascade previous next)))"
  by (simp add: cascade_def passes_distinct_next)


lemma preserveShowIds_unmatched:
  assumes "j \<notin> snd ` set (concat (cascade previousShows nextShows))"
  shows "preserveShowIds nextShows previousShows ! j = nextShows ! j"
  unfolding preserveShowIds_cascade using assms by (rule assignIds_untouched)









section \<open>The resolver over a store\<close>

lemma deref_old:
  assumes "\<forall>a\<in>set refs. a < length h"
  shows "deref (h @ r) refs = deref h refs"
  using assms by (simp add: deref_def nth_append)

lemma deref_new:
  assumes "n = length r"
  shows "deref (h @ r) [length h..<length h + n] = r"
  using assms by (auto simp: deref_def intro!: nth_equalityI)

lemma writeIds_append:
  assumes "\<forall>a\<in>set previousShows. a < length h"
    and "\<forall>p\<in>set pairs. fst p < length previousShows \<and> snd p < length r"
  shows "writeIds previousShows [length h..<length h + length r] pairs (h @ r)
           = h @ assignIds (deref h previousShows) pairs r"
  using assms(2)
proof (induction pairs arbitrary: r)
  case Nil
  then show ?case by (simp add: writeIds_def assignIds_Nil)
next
  case (Cons p pairs)
  let ?i = "fst p" and ?j = "snd p"
  have i: "?i < length previousShows" and j: "?j < length r"
    using Cons.prems by simp_all
  have a: "previousShows ! ?i < length h"
    using assms(1) i by simp
  let ?r = "r[?j := (r ! ?j)\<lparr>showId := showId (deref h previousShows ! ?i)\<rparr>]"
  have step: "(h @ r)[[length h..<length h + length r] ! ?j :=
                 ((h @ r) ! ([length h..<length h + length r] ! ?j))
                   \<lparr>showId := showId ((h @ r) ! (previousShows ! ?i))\<rparr>] = h @ ?r"
    using i j a by (simp add: list_update_append nth_append deref_def)
  have "writeIds previousShows [length h..<length h + length r] (p # pairs) (h @ r)
      = writeIds previousShows [length h..<length h + length ?r] pairs (h @ ?r)"
    unfolding writeIds_def foldl_Cons step by simp
  also have "\<dots> = h @ assignIds (deref h previousShows) pairs ?r"
    using Cons.prems by (intro Cons.IH) simp
  finally show ?case by (simp add: assignIds_Cons)
qed

lemma tryMatch_pairs_bound:
  "\<forall>p\<in>set (snd (tryMatch previous next state keyFn)). fst p < length previous \<and> snd p < length next"
  using tryMatch_pair_range [of _ _ previous "next" state keyFn] by auto

lemma pass_heap:
  assumes "\<forall>a\<in>set previousShows. a < length h" and "n = length r"
  shows "tryMatch (deref (h @ r) previousShows) (deref (h @ r) [length h..<length h + n]) state keyFn
           = tryMatch (deref h previousShows) r state keyFn"
    and "writeIds previousShows [length h..<length h + n]
           (snd (tryMatch (deref h previousShows) r state keyFn)) (h @ r)
           = h @ assignIds (deref h previousShows)
                   (snd (tryMatch (deref h previousShows) r state keyFn)) r"
proof -
  show "tryMatch (deref (h @ r) previousShows) (deref (h @ r) [length h..<length h + n]) state keyFn
           = tryMatch (deref h previousShows) r state keyFn"
    using assms by (simp add: deref_old deref_new)
  have "\<forall>p\<in>set (snd (tryMatch (deref h previousShows) r state keyFn)).
          fst p < length previousShows \<and> snd p < length r"
    using tryMatch_pairs_bound [of "deref h previousShows" r state keyFn]
    by (simp add: deref_def)
  then show "writeIds previousShows [length h..<length h + n]
           (snd (tryMatch (deref h previousShows) r state keyFn)) (h @ r)
           = h @ assignIds (deref h previousShows)
                   (snd (tryMatch (deref h previousShows) r state keyFn)) r"
    using writeIds_append [OF assms(1)] assms(2) by simp
qed

lemma preserveShowIdsHeap_eq:
  assumes "\<forall>a\<in>set previousShows. a < length h"
  shows "preserveShowIdsHeap h nextShows previousShows =
     (h @ preserveShowIds (deref h nextShows) (deref h previousShows),
      [length h..<length h + length nextShows])"
proof -
  have n: "length nextShows = length (deref h nextShows)"
    by (simp add: deref_def)
  show ?thesis
    unfolding preserveShowIdsHeap_def preserveShowIds_def Let_def split_def
    by (simp add: pass_heap [OF assms] assignIds_length n [symmetric])
qed

lemma preserveShowIds_length:
  "length (preserveShowIds nextShows previousShows) = length nextShows"
  by (simp add: preserveShowIds_cascade assignIds_length)

lemma preserveShowIds_frame:
  assumes "j < length nextShows"
  shows "(preserveShowIds nextShows previousShows ! j)\<lparr>showId := x\<rparr> = (nextShows ! j)\<lparr>showId := x\<rparr>"
  unfolding preserveShowIds_cascade using assms by (rule assignIds_frame)

text \<open>
  Claim C10: the result has the length and order of \<open>nextShows\<close>, each result record equals
  the next record at the same position in every field but \<open>showId\<close>, and every object that
  existed before the call, so every record of either input array, is left as it was.
\<close>

theorem preserveShowIds_frame_effect:
  assumes "\<forall>a\<in>set nextShows. a < length h" and "\<forall>a\<in>set previousShows. a < length h"
    and "preserveShowIdsHeap h nextShows previousShows = (h', result)"
  shows "length result = length nextShows
    \<and> (\<forall>j<length nextShows.
           (h' ! (result ! j))\<lparr>showId := showId (h ! (nextShows ! j))\<rparr> = h ! (nextShows ! j))
    \<and> (\<forall>a<length h. h' ! a = h ! a)
    \<and> deref h' nextShows = deref h nextShows \<and> deref h' previousShows = deref h previousShows
    \<and> deref h' result = preserveShowIds (deref h nextShows) (deref h previousShows)"
proof -
  let ?out = "preserveShowIds (deref h nextShows) (deref h previousShows)"
  have h': "h' = h @ ?out" and r: "result = [length h..<length h + length nextShows]"
    using assms(3) preserveShowIdsHeap_eq [OF assms(2), of nextShows] by simp_all
  have len: "length ?out = length nextShows"
    by (simp add: preserveShowIds_length deref_def)
  have c1: "length result = length nextShows"
    by (simp add: r)
  have c5: "deref h' result = ?out"
    unfolding h' r by (rule deref_new) (simp add: len)
  have c3: "\<forall>a<length h. h' ! a = h ! a"
    by (simp add: h' nth_append)
  have c4: "deref h' nextShows = deref h nextShows \<and> deref h' previousShows = deref h previousShows"
    using assms(1,2) by (simp add: h' deref_old)
  have c2: "\<forall>j<length nextShows.
           (h' ! (result ! j))\<lparr>showId := showId (h ! (nextShows ! j))\<rparr> = h ! (nextShows ! j)"
  proof (intro allI impI)
    fix j assume j: "j < length nextShows"
    then have "h' ! (result ! j) = ?out ! j"
      by (simp add: h' r nth_append)
    moreover have "(?out ! j)\<lparr>showId := showId (h ! (nextShows ! j))\<rparr>
        = (deref h nextShows ! j)\<lparr>showId := showId (h ! (nextShows ! j))\<rparr>"
      using j by (intro preserveShowIds_frame) (simp add: deref_def)
    ultimately show "(h' ! (result ! j))\<lparr>showId := showId (h ! (nextShows ! j))\<rparr> = h ! (nextShows ! j)"
      using j by (simp add: deref_def)
  qed
  show ?thesis using c1 c2 c3 c4 c5 by simp
qed

text \<open>Claim C10 on a store that holds the next show at address 0 and the previous show at
  address 1: the copy is allocated at address 2 and is the only object written.\<close>

theorem preserveShowIds_frame_effect_witness:
  "preserveShowIdsHeap [showWithOpener, showOld] [0] [1]
     = ([showWithOpener, showOld, showWithOpener\<lparr>showId := ''old''\<rparr>], [2])
   \<and> length [2 :: nat] = length [0 :: nat]
   \<and> deref [showWithOpener, showOld, showWithOpener\<lparr>showId := ''old''\<rparr>] [0] = [showWithOpener]
   \<and> deref [showWithOpener, showOld, showWithOpener\<lparr>showId := ''old''\<rparr>] [1] = [showOld]
   \<and> deref [showWithOpener, showOld, showWithOpener\<lparr>showId := ''old''\<rparr>] [2]
       = preserveShowIds [showWithOpener] [showOld]"
proof -
  have e: "preserveShowIdsHeap [showWithOpener, showOld] [0] [1]
     = ([showWithOpener, showOld, showWithOpener\<lparr>showId := ''old''\<rparr>], [2])"
    by code_simp
  have n: "\<forall>a\<in>set [0 :: nat]. a < length [showWithOpener, showOld]"
    and p: "\<forall>a\<in>set [1 :: nat]. a < length [showWithOpener, showOld]"
    by simp_all
  have x: "deref [showWithOpener, showOld] [0] = [showWithOpener]"
    and y: "deref [showWithOpener, showOld] [1] = [showOld]"
    by (simp_all add: deref_def)
  have "deref [showWithOpener, showOld, showWithOpener\<lparr>showId := ''old''\<rparr>] [2]
       = preserveShowIds (deref [showWithOpener, showOld] [0]) (deref [showWithOpener, showOld] [1])"
    using preserveShowIds_frame_effect [OF n p e] by blast
  then have d: "deref [showWithOpener, showOld, showWithOpener\<lparr>showId := ''old''\<rparr>] [2]
       = preserveShowIds [showWithOpener] [showOld]"
    unfolding x y .
  have z: "deref [showWithOpener, showOld, showWithOpener\<lparr>showId := ''old''\<rparr>] [0] = [showWithOpener]"
    and w: "deref [showWithOpener, showOld, showWithOpener\<lparr>showId := ''old''\<rparr>] [1] = [showOld]"
    by (simp_all add: deref_def)
  show ?thesis
    by (intro conjI e d z w) simp
qed

section \<open>A previous record paired twice in one pass\<close>

text \<open>
  Claim C2 at a failing input: the previous batch holds one show, the next batch holds it
  twice with different openers. Both next records carry the stable key of the previous
  record, the map of the stable-key pass is built before its loop, and the loop pairs the
  previous record 0 with the next records 0 and 1: both get its identifier, and the counts
  report two updated shows for one previous show.
\<close>

theorem tryMatch_pairs_previous_twice:
  "cascade [showOld] [showOld\<lparr>openers := [''X'']\<rparr>, showOld\<lparr>openers := [''Y'']\<rparr>]
     = [[], [(0, 0), (0, 1)], [], [], []]
   \<and> map showId (preserveShowIds [showOld\<lparr>showId := ''n1'', openers := [''X'']\<rparr>,
                                  showOld\<lparr>showId := ''n2'', openers := [''Y'']\<rparr>] [showOld])
     = [''old'', ''old'']
   \<and> diffShows [showOld] [showOld\<lparr>openers := [''X'']\<rparr>, showOld\<lparr>openers := [''Y'']\<rparr>]
     = \<lparr>removed = 0, unchanged = 0, updated = 2, added = 0\<rparr>"
  by code_simp

text \<open>What does hold across the cascade: no next record is in two pairs, and the pairs of
  different passes have different previous records.\<close>

lemma distinct_snd_unique:
  "distinct (map snd xs) \<Longrightarrow> (i, j) \<in> set xs \<Longrightarrow> (i', j) \<in> set xs \<Longrightarrow> i = i'"
  by (induction xs) (auto simp: image_iff)

lemma cascade_next_once:
  assumes "(i, j) \<in> set (concat (cascade previous next))"
    and "(i', j) \<in> set (concat (cascade previous next))"
  shows "i = i'"
  using cascade_distinct_next assms by (rule distinct_snd_unique)

section \<open>The write gate\<close>

lemma processVenue_files:
  assumes "orEmpty error = []"
  shows "files (processVenue todayISO genISO st (v, scraped, error)) =
     (if shouldWrite (venueRun todayISO genISO v scraped (readPrevious (files st) (id_venue v)))
      then (files st)(id_venue v \<mapsto>
             Json (payload (venueRun todayISO genISO v scraped (readPrevious (files st) (id_venue v)))))
      else files st)"
  using assms by (simp add: processVenue_def Let_def)



lemma venueRun_payload:
  "fileShows (payload (venueRun todayISO genISO v scraped previous)) =
     showsWithIds (venueRun todayISO genISO v scraped previous)"
  by (simp add: venueRun_def Let_def)

lemma venueRun_showsWithIds:
  "showsWithIds (venueRun todayISO genISO v scraped previous) =
     preserveShowIds (normalizeShows (id_venue v) (name v) (calendarUrl v) scraped)
       (case previous of None \<Rightarrow> [] | Some f \<Rightarrow> fileShows f)"
  by (simp add: venueRun_def Let_def)


lemma exRun_kept:
  "venueRun exToday exGenerated exVenue exRowsKept (Some exFile) =
     \<lparr>showsWithIds = [exKept],
      countsAll = \<lparr>removed = 1, unchanged = 1, updated = 0, added = 0\<rparr>,
      countsFuture = \<lparr>removed = 0, unchanged = 1, updated = 0, added = 0\<rparr>,
      shouldWrite = False,
      payload = \<lparr>venueInfo = exVenue, generatedAtISO = exGenerated, fileShows = [exKept]\<rparr>\<rparr>"
  by code_simp



section \<open>What is persisted\<close>

text \<open>
  Claim C7, as amended: the batch persisted for a venue whose scrape reported no error and
  whose previous file could be read is the previous batch as it was when the gate suppresses
  the write, so that every previous show, past-dated or not, remains; and it is exactly the
  new batch with the preserved identifiers when the gate opens, so that every previous show
  that is not in the new batch is absent, the past-dated ones included.
\<close>

theorem persisted_batch:
  assumes "orEmpty error = []"
    and "readPrevious (files st) (id_venue v) = Some f"
    and "run = venueRun todayISO genISO v scraped (Some f)"
    and "st' = processVenue todayISO genISO st (v, scraped, error)"
  shows "\<exists>f'. readPrevious (files st') (id_venue v) = Some f'
            \<and> fileShows f' = (if shouldWrite run then showsWithIds run else fileShows f)"
  using assms
  by (simp add: processVenue_files venueRun_payload [symmetric] readPrevious_def)

theorem persisted_batch_witness:
  "orEmpty None = []
   \<and> readPrevious (files exState) (id_venue exVenue) = Some exFile
   \<and> \<not> shouldWrite (venueRun exToday exGenerated exVenue exRowsKept (Some exFile))
   \<and> (\<exists>f'. readPrevious (files (processVenue exToday exGenerated exState (exVenue, exRowsKept, None)))
             (id_venue exVenue) = Some f'
           \<and> fileShows f' = [exPast, exKept])"
proof -
  have e: "orEmpty None = []"
    by (simp add: orEmpty_def)
  have p: "readPrevious (files exState) (id_venue exVenue) = Some exFile"
    by (simp add: readPrevious_def exState_def exVenue_def)
  have n: "\<not> shouldWrite (venueRun exToday exGenerated exVenue exRowsKept (Some exFile))"
    by (simp add: exRun_kept)
  show ?thesis
    using persisted_batch [OF e p refl refl, of exToday exGenerated exRowsKept] e p n
    by (simp add: exFile_def)
qed

text \<open>Claim C7 as stated fails: when the show of 2026-01-10 comes with another opener, the
  file is rewritten, and the show of 2026-01-03, which lies before today and is no longer
  scraped, is not in it.\<close>

theorem persisted_batch_counterexample:
  "exPast \<in> set (fileShows exFile) \<and> dateISO exPast < exToday
   \<and> readPrevious (files exState) (id_venue exVenue) = Some exFile
   \<and> files (processVenue exToday exGenerated exState (exVenue, exRowsChanged, None)) (id_venue exVenue)
       = Some (Json \<lparr>venueInfo = exVenue, generatedAtISO = exGenerated,
                     fileShows = [exKept\<lparr>openers := [''Updated Opener'']\<rparr>]\<rparr>)
   \<and> exPast \<notin> set [exKept\<lparr>openers := [''Updated Opener'']\<rparr>]"
  by code_simp

section \<open>The order of the normalized batch\<close>

lemma localeCompare_le: "localeCompare a b \<le> 0 \<longleftrightarrow> a \<le> b"
  by (auto simp: localeCompare_def)

lemma compareShows_le: "compareShows a b \<le> 0 \<longleftrightarrow> sortKey a \<le> sortKey b"
  by (auto simp: compareShows_def sortKey_def localeCompare_le less_eq_prod_def)

lemma insertBy_insort: "insertBy compareShows x ys = insort_key sortKey x ys"
  by (induction ys) (simp_all add: compareShows_le)

lemma sortBy_sort_key: "sortBy compareShows xs = sort_key sortKey xs"
proof -
  have "insertBy compareShows = insort_key sortKey"
    by (intro ext) (rule insertBy_insort)
  then show ?thesis by (simp add: sortBy_def sort_key_def)
qed

lemma set_sortBy: "set (sortBy compareShows xs) = set xs"
  by (simp add: sortBy_sort_key)

lemma dedupe_subset: "snd ` set (foldl dedupeStep acc xs) \<subseteq> snd ` set acc \<union> set xs"
proof (induction xs arbitrary: acc)
  case Nil
  then show ?case by simp
next
  case (Cons x xs)
  have "snd ` set (dedupeStep acc x) \<subseteq> snd ` set acc \<union> {x}"
    by (auto simp: dedupeStep_def Let_def)
  moreover have "snd ` set (foldl dedupeStep (dedupeStep acc x) xs)
      \<subseteq> snd ` set (dedupeStep acc x) \<union> set xs"
    by (rule Cons.IH)
  ultimately show ?case
    by (simp add: subset_iff) blast
qed

lemma normalizeShows_subset:
  "set (normalizeShows vId vName srcUrl scraped)
     \<subseteq> finishShow ` set (groupShows vId vName srcUrl scraped)"
  using dedupe_subset [of "[]" "map finishShow (groupShows vId vName srcUrl scraped)"]
  by (simp add: normalizeShows_def Let_def set_sortBy)




section \<open>Headliners of the normalized batch\<close>

lemma groupStep_cases:
  "groupStep vId vName srcUrl st item =
     (case groupFind st item of
        Some i \<Rightarrow> st\<lparr>showObjs := (showObjs st)[i := addArtists item (showObjs st ! i)]\<rparr>
      | None \<Rightarrow>
          \<lparr>byKey = (case rowKey item of
                      Some k \<Rightarrow> (byKey st)(k \<mapsto> length (showObjs st))
                    | None \<Rightarrow> byKey st),
           showObjs = showObjs st @ [addArtists item (newShow vId vName srcUrl item)]\<rparr>)"
proof (cases "groupFind st item")
  case n: None
  have h: "(if (case rowKey item of Some k \<Rightarrow> byKey st k | None \<Rightarrow> None) = None
              \<and> rowRole item = ''opener''
           then findLastIndex (\<lambda>existing. dateISO existing = date item \<and> showUrl existing = None)
                  (showObjs st)
           else (case rowKey item of Some k \<Rightarrow> byKey st k | None \<Rightarrow> None)) = None"
    using n unfolding groupFind_def Let_def .
  show ?thesis
    by (simp only: n groupStep_def Let_def h) (simp add: addArtists_def newShow_def)
next
  case s: (Some i)
  have h: "(if (case rowKey item of Some k \<Rightarrow> byKey st k | None \<Rightarrow> None) = None
              \<and> rowRole item = ''opener''
           then findLastIndex (\<lambda>existing. dateISO existing = date item \<and> showUrl existing = None)
                  (showObjs st)
           else (case rowKey item of Some k \<Rightarrow> byKey st k | None \<Rightarrow> None)) = Some i"
    using s unfolding groupFind_def Let_def .
  show ?thesis
    by (simp only: s groupStep_def Let_def h) (simp add: addArtists_def)
qed

lemma findLastIndex_Some:
  assumes "findLastIndex P xs = Some i"
  shows "i < length xs \<and> P (xs ! i)"
proof -
  obtain rest where "filter (\<lambda>i. P (xs ! i)) (rev [0..<length xs]) = i # rest"
    using assms by (auto simp: findLastIndex_def split: list.splits)
  then have "i \<in> set (filter (\<lambda>i. P (xs ! i)) (rev [0..<length xs]))"
    by (metis list.set_intros(1))
  then show ?thesis by simp
qed

lemma findLastIndex_None:
  assumes "findLastIndex P xs = None"
  shows "\<forall>x\<in>set xs. \<not> P x"
proof -
  have "filter (\<lambda>i. P (xs ! i)) (rev [0..<length xs]) = []"
    using assms by (auto simp: findLastIndex_def split: list.splits)
  then have "\<forall>i<length xs. \<not> P (xs ! i)"
    by (simp add: filter_empty_conv)
  then show ?thesis by (auto simp: in_set_conv_nth)
qed

lemma dateKey_inject:
  assumes "''date:'' @ D @ ''|headliner:'' @ A = ''date:'' @ D' @ ''|headliner:'' @ A'"
    and "CHR ''|'' \<notin> set D" and "CHR ''|'' \<notin> set D'"
  shows "D = D'"
proof -
  have e: "D @ ''|headliner:'' @ A = D' @ ''|headliner:'' @ A'"
    using assms(1) by simp
  have "takeWhile (\<lambda>c. c \<noteq> CHR ''|'') (D @ ''|headliner:'' @ A) = D"
    using assms(2) by (subst takeWhile_append2) auto
  moreover have "takeWhile (\<lambda>c. c \<noteq> CHR ''|'') (D' @ ''|headliner:'' @ A') = D'"
    using assms(3) by (subst takeWhile_append2) auto
  ultimately show ?thesis using e by simp
qed

lemma rowKey_url: "showUrl_row r \<noteq> [] \<Longrightarrow> rowKey r = Some (''url:'' @ showUrl_row r)"
  by (simp add: rowKey_def rowUrl_def)

lemma rowKey_date:
  "showUrl_row r = [] \<Longrightarrow> rowRole r \<noteq> ''opener'' \<Longrightarrow>
     rowKey r = Some (''date:'' @ date r @ ''|headliner:'' @ join '','' (artists r))"
  by (simp add: rowKey_def rowUrl_def)

lemma rowKey_opener: "showUrl_row r = [] \<Longrightarrow> rowRole r = ''opener'' \<Longrightarrow> rowKey r = None"
  by (simp add: rowKey_def rowUrl_def)

lemma addArtists_fields:
  "dateISO (addArtists r s) = dateISO s" "showUrl (addArtists r s) = showUrl s"
  by (simp_all add: addArtists_def)

lemma addArtists_headliners:
  "headliners s \<noteq> [] \<or> (rowRole r \<noteq> ''opener'' \<and> artists r \<noteq> []) \<Longrightarrow>
     headliners (addArtists r s) \<noteq> []"
  by (auto simp: addArtists_def)

lemma update_fields:
  assumes "idx < length xs"
  shows "dateISO (xs[i := addArtists r (xs ! i)] ! idx) = dateISO (xs ! idx)"
    and "showUrl (xs[i := addArtists r (xs ! i)] ! idx) = showUrl (xs ! idx)"
  using assms by (cases "i = idx"; simp add: addArtists_fields)+

lemma update_exists:
  assumes "\<exists>s\<in>set xs. dateISO s = d \<and> showUrl s = None"
  shows "\<exists>s\<in>set (xs[i := addArtists r (xs ! i)]). dateISO s = d \<and> showUrl s = None"
proof -
  obtain idx where idx: "idx < length xs" "dateISO (xs ! idx) = d" "showUrl (xs ! idx) = None"
    using assms by (auto simp: in_set_conv_nth)
  let ?ys = "xs[i := addArtists r (xs ! i)]"
  have "?ys ! idx \<in> set ?ys" using idx(1) by simp
  moreover have "dateISO (?ys ! idx) = d" "showUrl (?ys ! idx) = None"
    using idx update_fields [OF idx(1), of i r] by simp_all
  ultimately show ?thesis by blast
qed

lemma groupFind_Some:
  assumes "groupFind st r = Some i"
  shows "(\<exists>k. rowKey r = Some k \<and> byKey st k = Some i)
     \<or> ((case rowKey r of Some k \<Rightarrow> byKey st k | None \<Rightarrow> None) = None \<and> rowRole r = ''opener''
        \<and> findLastIndex (\<lambda>existing. dateISO existing = date r \<and> showUrl existing = None)
             (showObjs st) = Some i)"
  using assms by (auto simp: groupFind_def Let_def split: if_splits option.splits)

lemma groupFind_None:
  assumes "groupFind st r = None"
  shows "(case rowKey r of Some k \<Rightarrow> byKey st k | None \<Rightarrow> None) = None"
    and "rowRole r = ''opener'' \<Longrightarrow>
           findLastIndex (\<lambda>existing. dateISO existing = date r \<and> showUrl existing = None)
             (showObjs st) = None"
  using assms by (auto simp: groupFind_def Let_def split: if_splits option.splits)

lemma opener_has_show:
  assumes inv: "groupInv st seen" and seen: "sameShowSeen seen r"
  shows "showUrl_row r \<noteq> [] \<Longrightarrow> byKey st (''url:'' @ showUrl_row r) \<noteq> None"
    and "showUrl_row r = [] \<Longrightarrow> \<exists>s\<in>set (showObjs st). dateISO s = date r \<and> showUrl s = None"
proof -
  obtain r' where r': "r' \<in> set seen"
    and g: "if showUrl_row r \<noteq> [] then showUrl_row r' = showUrl_row r
            else showUrl_row r' = [] \<and> date r' = date r"
    using seen by (auto simp: sameShowSeen_def)
  show "byKey st (''url:'' @ showUrl_row r) \<noteq> None" if "showUrl_row r \<noteq> []"
    using inv r' g that unfolding groupInv_def by (metis (full_types))
  show "\<exists>s\<in>set (showObjs st). dateISO s = date r \<and> showUrl s = None" if "showUrl_row r = []"
    using inv r' g that unfolding groupInv_def by (metis (full_types))
qed

lemma groupInv_step_found:
  assumes inv: "groupInv st seen" and ok: "rowOk seen r" and f: "groupFind st r = Some i"
  shows "groupInv (st\<lparr>showObjs := (showObjs st)[i := addArtists r (showObjs st ! i)]\<rparr>) (seen @ [r])"
proof -
  let ?xs = "showObjs st" and ?ys = "(showObjs st)[i := addArtists r (showObjs st ! i)]"
  have I1: "\<forall>s\<in>set ?xs. headliners s \<noteq> []"
    and I2: "\<forall>k idx. byKey st k = Some idx \<longrightarrow> idx < length ?xs"
    and I3: "\<forall>D A idx. byKey st (''date:'' @ D @ ''|headliner:'' @ A) = Some idx \<and> CHR ''|'' \<notin> set D
            \<longrightarrow> dateISO (?xs ! idx) = D \<and> showUrl (?xs ! idx) = None"
    and I4: "\<forall>r\<in>set seen. showUrl_row r \<noteq> [] \<longrightarrow> byKey st (''url:'' @ showUrl_row r) \<noteq> None"
    and I5: "\<forall>r\<in>set seen. showUrl_row r = [] \<longrightarrow>
            (\<exists>s\<in>set ?xs. dateISO s = date r \<and> showUrl s = None)"
    using inv unfolding groupInv_def by blast+
  have nb: "CHR ''|'' \<notin> set (date r)"
    using ok by (simp add: rowOk_def)
  have i: "i < length ?xs"
    using groupFind_Some [OF f] I2 findLastIndex_Some by blast
  have url: "byKey st (''url:'' @ showUrl_row r) \<noteq> None" if u: "showUrl_row r \<noteq> []"
  proof (cases "rowRole r = ''opener''")
    case True
    then have "sameShowSeen seen r" using ok by (simp add: rowOk_def)
    then show ?thesis using opener_has_show(1) [OF inv _ u] by simp
  next
    case False
    then show ?thesis
      using groupFind_Some [OF f] rowKey_url [OF u] by auto
  qed
  have fits: "dateISO (?xs ! i) = date r \<and> showUrl (?xs ! i) = None" if u: "showUrl_row r = []"
  proof (cases "rowRole r = ''opener''")
    case True
    then have "findLastIndex (\<lambda>existing. dateISO existing = date r \<and> showUrl existing = None) ?xs = Some i"
      using groupFind_Some [OF f] rowKey_opener [OF u True] by auto
    then show ?thesis using findLastIndex_Some by fastforce
  next
    case False
    then have "byKey st (''date:'' @ date r @ ''|headliner:'' @ join '','' (artists r)) = Some i"
      using groupFind_Some [OF f] rowKey_date [OF u False] by auto
    then show ?thesis using I3 nb by blast
  qed
  have J1: "\<forall>s\<in>set ?ys. headliners s \<noteq> []"
  proof
    fix s assume "s \<in> set ?ys"
    then have "s = addArtists r (?xs ! i) \<or> s \<in> set ?xs"
      using set_update_subset_insert [of ?xs i "addArtists r (?xs ! i)"] by auto
    then show "headliners s \<noteq> []"
      using I1 i addArtists_headliners [of "?xs ! i" r] by auto
  qed
  have J2: "\<forall>k idx. byKey st k = Some idx \<longrightarrow> idx < length ?ys"
    using I2 by simp
  have J3: "\<forall>D A idx. byKey st (''date:'' @ D @ ''|headliner:'' @ A) = Some idx \<and> CHR ''|'' \<notin> set D
            \<longrightarrow> dateISO (?ys ! idx) = D \<and> showUrl (?ys ! idx) = None"
  proof (intro allI impI)
    fix D A idx
    assume a: "byKey st (''date:'' @ D @ ''|headliner:'' @ A) = Some idx \<and> CHR ''|'' \<notin> set D"
    then have "idx < length ?xs" using I2 by blast
    then show "dateISO (?ys ! idx) = D \<and> showUrl (?ys ! idx) = None"
      using I3 a update_fields [of idx ?xs i r] by simp
  qed
  have J4: "\<forall>r'\<in>set (seen @ [r]). showUrl_row r' \<noteq> [] \<longrightarrow> byKey st (''url:'' @ showUrl_row r') \<noteq> None"
    using I4 url by auto
  have J5: "\<forall>r'\<in>set (seen @ [r]). showUrl_row r' = [] \<longrightarrow>
            (\<exists>s\<in>set ?ys. dateISO s = date r' \<and> showUrl s = None)"
  proof (intro ballI impI)
    fix r' assume m: "r' \<in> set (seen @ [r])" and u: "showUrl_row r' = []"
    have "\<exists>s\<in>set ?xs. dateISO s = date r' \<and> showUrl s = None"
    proof (cases "r' = r")
      case True
      then show ?thesis using fits u i nth_mem by blast
    next
      case False
      then show ?thesis using I5 m u by auto
    qed
    then show "\<exists>s\<in>set ?ys. dateISO s = date r' \<and> showUrl s = None"
      by (rule update_exists)
  qed
  show ?thesis
    unfolding groupInv_def using J1 J2 J3 J4 J5 by simp
qed

lemma groupInv_step_new:
  assumes inv: "groupInv st seen" and ok: "rowOk seen r" and f: "groupFind st r = None"
  shows "groupInv
     \<lparr>byKey = (case rowKey r of Some k \<Rightarrow> (byKey st)(k \<mapsto> length (showObjs st))
               | None \<Rightarrow> byKey st),
      showObjs = showObjs st @ [addArtists r (newShow vId vName srcUrl r)]\<rparr> (seen @ [r])"
proof -
  let ?xs = "showObjs st" and ?new = "addArtists r (newShow vId vName srcUrl r)"
  have I1: "\<forall>s\<in>set ?xs. headliners s \<noteq> []"
    and I2: "\<forall>k idx. byKey st k = Some idx \<longrightarrow> idx < length ?xs"
    and I3: "\<forall>D A idx. byKey st (''date:'' @ D @ ''|headliner:'' @ A) = Some idx \<and> CHR ''|'' \<notin> set D
            \<longrightarrow> dateISO (?xs ! idx) = D \<and> showUrl (?xs ! idx) = None"
    and I4: "\<forall>r\<in>set seen. showUrl_row r \<noteq> [] \<longrightarrow> byKey st (''url:'' @ showUrl_row r) \<noteq> None"
    and I5: "\<forall>r\<in>set seen. showUrl_row r = [] \<longrightarrow>
            (\<exists>s\<in>set ?xs. dateISO s = date r \<and> showUrl s = None)"
    using inv unfolding groupInv_def by blast+
  have nb: "CHR ''|'' \<notin> set (date r)"
    using ok by (simp add: rowOk_def)
  have role: "rowRole r \<noteq> ''opener''"
  proof
    assume o: "rowRole r = ''opener''"
    then have seen: "sameShowSeen seen r" using ok by (simp add: rowOk_def)
    show False
    proof (cases "showUrl_row r = []")
      case True
      then have "\<exists>s\<in>set ?xs. dateISO s = date r \<and> showUrl s = None"
        using opener_has_show(2) [OF inv seen] by simp
      then show False
        using findLastIndex_None [OF groupFind_None(2) [OF f o]] by blast
    next
      case False
      then show False
        using opener_has_show(1) [OF inv seen] groupFind_None(1) [OF f] rowKey_url [OF False]
        by simp
    qed
  qed
  then have art: "artists r \<noteq> []"
    using ok by (simp add: rowOk_def)
  obtain k where k: "rowKey r = Some k"
    and kform: "if showUrl_row r \<noteq> [] then k = ''url:'' @ showUrl_row r
                else k = ''date:'' @ date r @ ''|headliner:'' @ join '','' (artists r)"
    using role by (cases "showUrl_row r = []") (simp_all add: rowKey_url rowKey_date)
  let ?bk = "(byKey st)(k \<mapsto> length ?xs)"
  have newf: "dateISO ?new = date r" "showUrl ?new = rowUrl r" "headliners ?new \<noteq> []"
    using role art by (simp_all add: addArtists_def newShow_def)
  have J1: "\<forall>s\<in>set (?xs @ [?new]). headliners s \<noteq> []"
    using I1 newf(3) by auto
  have J2: "\<forall>k' idx. ?bk k' = Some idx \<longrightarrow> idx < length (?xs @ [?new])"
    using I2 by (auto simp: less_Suc_eq)
  have J3: "\<forall>D A idx. ?bk (''date:'' @ D @ ''|headliner:'' @ A) = Some idx \<and> CHR ''|'' \<notin> set D
            \<longrightarrow> dateISO ((?xs @ [?new]) ! idx) = D \<and> showUrl ((?xs @ [?new]) ! idx) = None"
  proof (intro allI impI)
    fix D A idx
    assume a: "?bk (''date:'' @ D @ ''|headliner:'' @ A) = Some idx \<and> CHR ''|'' \<notin> set D"
    show "dateISO ((?xs @ [?new]) ! idx) = D \<and> showUrl ((?xs @ [?new]) ! idx) = None"
    proof (cases "''date:'' @ D @ ''|headliner:'' @ A = k")
      case True
      then have idx: "idx = length ?xs" using a by simp
      have u: "showUrl_row r = []"
      proof (rule ccontr)
        assume "showUrl_row r \<noteq> []"
        then have "k = ''url:'' @ showUrl_row r" using kform by simp
        then have "''date:'' @ D @ ''|headliner:'' @ A = ''url:'' @ showUrl_row r"
          using True by (simp only:)
        then show False by simp
      qed
      then have "k = ''date:'' @ date r @ ''|headliner:'' @ join '','' (artists r)"
        using kform by simp
      then have eq: "''date:'' @ D @ ''|headliner:'' @ A
          = ''date:'' @ date r @ ''|headliner:'' @ join '','' (artists r)"
        using True by (simp only:)
      have nD: "CHR ''|'' \<notin> set D"
        using a by simp
      have "D = date r"
        by (rule dateKey_inject [OF eq nD nb])
      then show ?thesis
        using idx newf u by (simp add: rowUrl_def)
    next
      case False
      then have b: "byKey st (''date:'' @ D @ ''|headliner:'' @ A) = Some idx"
        using a by simp
      then have l: "idx < length ?xs" using I2 by blast
      have "dateISO (?xs ! idx) = D \<and> showUrl (?xs ! idx) = None"
        using I3 a b by blast
      then show ?thesis using l by (simp add: nth_append)
    qed
  qed
  have J4: "\<forall>r'\<in>set (seen @ [r]). showUrl_row r' \<noteq> [] \<longrightarrow> ?bk (''url:'' @ showUrl_row r') \<noteq> None"
    using I4 kform by auto
  have J5: "\<forall>r'\<in>set (seen @ [r]). showUrl_row r' = [] \<longrightarrow>
            (\<exists>s\<in>set (?xs @ [?new]). dateISO s = date r' \<and> showUrl s = None)"
  proof (intro ballI impI)
    fix r' assume m: "r' \<in> set (seen @ [r])" and u: "showUrl_row r' = []"
    show "\<exists>s\<in>set (?xs @ [?new]). dateISO s = date r' \<and> showUrl s = None"
    proof (cases "r' = r")
      case True
      then show ?thesis using newf u by (auto simp: rowUrl_def)
    next
      case False
      then show ?thesis using I5 m u by auto
    qed
  qed
  show ?thesis
    unfolding groupInv_def k using J1 J2 J3 J4 J5 by simp
qed

lemma groupInv_step:
  assumes "groupInv st seen" and "rowOk seen r"
  shows "groupInv (groupStep vId vName srcUrl st r) (seen @ [r])"
proof (cases "groupFind st r")
  case None
  then show ?thesis
    using groupInv_step_new [OF assms None] by (simp add: groupStep_cases)
next
  case (Some i)
  then show ?thesis
    using groupInv_step_found [OF assms Some] by (simp add: groupStep_cases)
qed

lemma groupInv_foldl:
  assumes "groupInv st seen" and "headlinersFirst seen rows"
  shows "groupInv (foldl (groupStep vId vName srcUrl) st rows) (seen @ rows)"
  using assms
proof (induction rows arbitrary: st seen)
  case Nil
  then show ?case by simp
next
  case (Cons r rows)
  have "groupInv (groupStep vId vName srcUrl st r) (seen @ [r])"
    using Cons.prems by (intro groupInv_step) simp_all
  then have "groupInv (foldl (groupStep vId vName srcUrl) (groupStep vId vName srcUrl st r) rows)
      ((seen @ [r]) @ rows)"
    using Cons.prems by (intro Cons.IH) simp_all
  then show ?case by simp
qed

lemma groupInv_init: "groupInv \<lparr>byKey = Map.empty, showObjs = []\<rparr> []"
  by (simp add: groupInv_def)

lemma set_fromSet_aux:
  "set (foldl (\<lambda>acc x. if x \<in> set acc then acc else acc @ [x]) acc xs) = set acc \<union> set xs"
  by (induction xs arbitrary: acc) auto

lemma set_fromSet: "set (fromSet xs) = set xs"
  by (simp add: fromSet_def set_fromSet_aux)

lemma finishShow_headliners: "headliners (finishShow s) = [] \<longleftrightarrow> headliners s = []"
proof -
  have "set (headliners (finishShow s)) = set (headliners s)"
    by (simp add: finishShow_def Let_def set_fromSet)
  then show ?thesis by (metis set_empty)
qed

text \<open>
  Claim C6, as amended: when every row that is not an opener row names at least one artist
  and every opener row follows a row of its own show (dates holding no \<open>|\<close>), every record
  \<open>normalizeShows\<close> returns has a headliner.
\<close>

theorem normalizeShows_headliners:
  assumes "headlinersFirst [] scraped"
    and "s \<in> set (normalizeShows vId vName srcUrl scraped)"
  shows "headliners s \<noteq> []"
proof -
  have "groupInv (foldl (groupStep vId vName srcUrl) \<lparr>byKey = Map.empty, showObjs = []\<rparr> scraped)
      ([] @ scraped)"
    using groupInv_init assms(1) by (rule groupInv_foldl)
  then have "\<forall>g\<in>set (groupShows vId vName srcUrl scraped). headliners g \<noteq> []"
    by (simp add: groupInv_def groupShows_def)
  moreover obtain g where "g \<in> set (groupShows vId vName srcUrl scraped)" and "s = finishShow g"
    using assms(2) normalizeShows_subset by blast
  ultimately show ?thesis by (simp add: finishShow_headliners)
qed

text \<open>Claim C6 on the rows of the update test: a headliner row, then an opener row of the
  same show.\<close>

theorem normalizeShows_headliners_witness:
  "headlinersFirst [] exRowsKept
   \<and> hd (normalizeShows ''bottom-of-the-hill'' ''Bottom of the Hill'' ''c'' exRowsKept)
       \<in> set (normalizeShows ''bottom-of-the-hill'' ''Bottom of the Hill'' ''c'' exRowsKept)
   \<and> headliners (hd (normalizeShows ''bottom-of-the-hill'' ''Bottom of the Hill'' ''c'' exRowsKept))
       \<noteq> []"
proof -
  let ?out = "normalizeShows ''bottom-of-the-hill'' ''Bottom of the Hill'' ''c'' exRowsKept"
  have h: "headlinersFirst [] exRowsKept"
    by code_simp
  have "?out \<noteq> []"
    by code_simp
  then have m: "hd ?out \<in> set ?out"
    by simp
  show ?thesis
    using normalizeShows_headliners [OF h m] h m by simp
qed

text \<open>Claim C6 as stated fails: an opener row that no row of its show precedes becomes a
  record of its own, with no headliner.\<close>

theorem normalizeShows_orphan_opener_counterexample:
  "map headliners (normalizeShows ''bottom-of-the-hill'' ''Bottom of the Hill'' ''c''
       [exRow ''opener'' ''Unchanged Opener'']) = [[]]"
  by code_simp

section \<open>Reordering the rows\<close>
























end
